theory Spec2Isabelle
  imports Main "HOL-Library.Word" "HOL-Library.Monad_Syntax"
begin

section \<open>JavaScript values as server.js observes them\<close>

text \<open>
  A JavaScript string is a sequence of UTF-16 code units. String literals of the source
  are ASCII and are written \<open>js ''...''\<close>.
\<close>

type_synonym code_unit = "16 word"
type_synonym jstring = "code_unit list"

definition js :: "string \<Rightarrow> jstring" where
  "js cs = map of_char cs"

datatype exn = TypeError | Thrown

text \<open>
  One constructor per JavaScript type. A Number and a BigInt are kept as what this program
  can observe of them: whether \<open>ToBoolean\<close> gives false (\<open>+0\<close>, \<open>-0\<close>, \<open>NaN\<close>, \<open>0n\<close>) and
  the text \<open>ToString\<close> renders. An object is kept as whether it is callable and what its
  conversion to a string does, which runs user code and may throw.
\<close>

datatype jsval =
    JUndefined
  | JNull
  | JBoolean bool
  | JNumber bool jstring
  | JBigInt bool jstring
  | JString jstring
  | JSymbol
  | JObject bool "exn + jstring"

fun ToBoolean :: "jsval \<Rightarrow> bool" where
  "ToBoolean JUndefined = False"
| "ToBoolean JNull = False"
| "ToBoolean (JBoolean b) = b"
| "ToBoolean (JNumber zero_or_nan txt) = (\<not> zero_or_nan)"
| "ToBoolean (JBigInt zero txt) = (\<not> zero)"
| "ToBoolean (JString s) = (s \<noteq> [])"
| "ToBoolean JSymbol = True"
| "ToBoolean (JObject callable conv) = True"

fun typeof :: "jsval \<Rightarrow> string" where
  "typeof JUndefined = ''undefined''"
| "typeof JNull = ''object''"
| "typeof (JBoolean b) = ''boolean''"
| "typeof (JNumber zero_or_nan txt) = ''number''"
| "typeof (JBigInt zero txt) = ''bigint''"
| "typeof (JString s) = ''string''"
| "typeof JSymbol = ''symbol''"
| "typeof (JObject callable conv) = (if callable then ''function'' else ''object'')"

fun ToString :: "jsval \<Rightarrow> exn + jstring" where
  "ToString JUndefined = Inr (js ''undefined'')"
| "ToString JNull = Inr (js ''null'')"
| "ToString (JBoolean b) = Inr (if b then js ''true'' else js ''false'')"
| "ToString (JNumber zero_or_nan txt) = Inr txt"
| "ToString (JBigInt zero txt) = Inr txt"
| "ToString (JString s) = Inr s"
| "ToString JSymbol = Inl TypeError"
| "ToString (JObject callable conv) = conv"

section \<open>Regular expressions\<close>

text \<open>
  The syntax of the two pattern literals: the assertions \<open>^\<close> and \<open>$\<close>, a pattern
  character, a character class of ranges, sequence, alternation \<open>|\<close> and a greedy
  quantifier with a lower and an optional upper bound. Groups only delimit; with no
  back-reference in either pattern, capturing has no effect on whether a match exists.
\<close>

datatype regex =
    Bol
  | Eol
  | Chr char
  | Cls "(char \<times> char) list"
  | Seq regex regex
  | Alt regex regex
  | Quant regex nat "nat option"

abbreviation Opt :: "regex \<Rightarrow> regex" where
  "Opt r \<equiv> Quant r 0 (Some 1)"

abbreviation Star :: "regex \<Rightarrow> regex" where
  "Star r \<equiv> Quant r 0 None"

text \<open>A sequence of terms, nested to the right; the empty sequence matches the empty string.\<close>

fun seqs :: "regex list \<Rightarrow> regex" where
  "seqs [] = Quant Eol 0 (Some 0)"
| "seqs [r] = r"
| "seqs (r # rs) = Seq r (seqs rs)"

definition in_class :: "(char \<times> char) list \<Rightarrow> code_unit \<Rightarrow> bool" where
  "in_class rs a = list_ex (\<lambda>(lo, hi). of_char lo \<le> a \<and> a \<le> of_char hi) rs"

fun rsize :: "regex \<Rightarrow> nat" where
  "rsize (Seq r1 r2) = Suc (rsize r1 + rsize r2)"
| "rsize (Alt r1 r2) = Suc (rsize r1 + rsize r2)"
| "rsize (Quant r mn mx) = Suc (rsize r)"
| "rsize r = 0"

fun quant_min :: "regex \<Rightarrow> nat" where
  "quant_min (Quant r mn mx) = mn"
| "quant_min r = 0"

text \<open>
  The backtracking matcher of the language definition, in continuation-passing style:
  \<open>matcher r s x c\<close> matches \<open>r\<close> against the input \<open>s\<close> at the position where \<open>x\<close>
  is what remains of \<open>s\<close>, and calls \<open>c\<close> on what remains after the match; \<open>None\<close> is
  failure, which makes the caller try its next choice. Neither pattern has a flag, so
  \<open>^\<close> holds only at index 0 and \<open>$\<close> only at the end of the input.

  A quantifier is RepeatMatcher: once the lower bound is used up, an iteration that
  consumed nothing is abandoned. The matcher never moves backwards, so "the end index did
  not change" is written \<open>length x \<le> length y\<close>.
\<close>

function (sequential) matcher ::
  "regex \<Rightarrow> jstring \<Rightarrow> jstring \<Rightarrow> (jstring \<Rightarrow> jstring option) \<Rightarrow> jstring option" where
  "matcher Bol s x c = (if length x = length s then c x else None)"
| "matcher Eol s x c = (if x = [] then c x else None)"
| "matcher (Chr ch) s x c =
     (case x of [] \<Rightarrow> None | a # y \<Rightarrow> if a = of_char ch then c y else None)"
| "matcher (Cls rs) s x c =
     (case x of [] \<Rightarrow> None | a # y \<Rightarrow> if in_class rs a then c y else None)"
| "matcher (Seq r1 r2) s x c = matcher r1 s x (\<lambda>y. matcher r2 s y c)"
| "matcher (Alt r1 r2) s x c =
     (case matcher r1 s x c of Some z \<Rightarrow> Some z | None \<Rightarrow> matcher r2 s x c)"
| "matcher (Quant r mn mx) s x c =
     (if mx = Some 0 then c x
      else if mn \<noteq> 0 then
        matcher r s x (\<lambda>y. matcher (Quant r (mn - 1) (map_option (\<lambda>n. n - 1) mx)) s y c)
      else
        (case matcher r s x
                (\<lambda>y. if length x \<le> length y then None
                     else matcher (Quant r 0 (map_option (\<lambda>n. n - 1) mx)) s y c) of
           Some z \<Rightarrow> Some z
         | None \<Rightarrow> c x))"
  by pat_completeness auto
termination
  by (relation "inv_image (less_than <*lex*> less_than <*lex*> less_than)
        (\<lambda>(r, s, x, c). (rsize r, quant_min r, length x))") auto

text \<open>
  A RegExp object: its pattern, the two flags that make \<open>exec\<close> depend on and write
  \<open>lastIndex\<close>, and \<open>lastIndex\<close> itself.
\<close>

record regexp =
  pattern :: regex
  global :: bool
  sticky :: bool
  lastIndex :: nat

text \<open>
  The search loop of RegExpBuiltinExec: try the matcher at index \<open>i\<close>; on failure give up
  if the object is sticky, otherwise move one code unit on, until \<open>i\<close> passes the end of
  the input. The result is the end index of the match found.
\<close>

function scan :: "regex \<Rightarrow> bool \<Rightarrow> jstring \<Rightarrow> nat \<Rightarrow> nat option" where
  "scan r st s i =
     (if length s < i then None
      else (case matcher r s (drop i s) Some of
              Some y \<Rightarrow> Some (length s - length y)
            | None \<Rightarrow> if st then None else scan r st s (Suc i)))"
  by pat_completeness auto
termination
  by (relation "measure (\<lambda>(r, st, s, i). Suc (length s) - i)") auto

declare scan.simps [simp del]

definition RegExpBuiltinExec :: "regexp \<Rightarrow> jstring \<Rightarrow> bool \<times> regexp" where
  "RegExpBuiltinExec R s =
     (let i0 = (if global R \<or> sticky R then lastIndex R else 0)
      in case scan (pattern R) (sticky R) s i0 of
           None \<Rightarrow> (False, if global R \<or> sticky R then R\<lparr>lastIndex := 0\<rparr> else R)
         | Some e \<Rightarrow> (True, if global R \<or> sticky R then R\<lparr>lastIndex := e\<rparr> else R))"

text \<open>\<open>R.test(v)\<close>: convert the argument to a string, run exec, report whether it matched.\<close>

definition RegExp_test :: "regexp \<Rightarrow> jsval \<Rightarrow> exn + (bool \<times> regexp)" where
  "RegExp_test R v =
     (case ToString v of Inl e \<Rightarrow> Inl e | Inr s \<Rightarrow> Inr (RegExpBuiltinExec R s))"

section \<open>validateTarget\<close>

definition alnum :: regex where
  "alnum = Cls [(CHR ''a'', CHR ''z''), (CHR ''A'', CHR ''Z''), (CHR ''0'', CHR ''9'')]"

definition alnum_hyphen :: regex where
  "alnum_hyphen =
     Cls [(CHR ''a'', CHR ''z''), (CHR ''A'', CHR ''Z''), (CHR ''0'', CHR ''9''),
          (CHR ''-'', CHR ''-'')]"

text \<open>\<^verbatim>\<open>[a-zA-Z0-9]([a-zA-Z0-9-]{0,61}[a-zA-Z0-9])?\<close>, which the pattern has twice.\<close>

definition label_tail :: regex where
  "label_tail = Opt (Seq (Quant alnum_hyphen 0 (Some 61)) alnum)"

text \<open>
  \<^verbatim>\<open>/^[a-zA-Z0-9]([a-zA-Z0-9-]{0,61}[a-zA-Z0-9])?(\.[a-zA-Z0-9]([a-zA-Z0-9-]{0,61}[a-zA-Z0-9])?)*$/\<close>
\<close>

definition domain_pattern :: regex where
  "domain_pattern =
     seqs [Bol, alnum, label_tail, Star (seqs [Chr CHR ''.'', alnum, label_tail]), Eol]"

text \<open>\<^verbatim>\<open>25[0-5]|2[0-4][0-9]|[01]?[0-9][0-9]?\<close>, which the pattern has twice.\<close>

definition octet :: regex where
  "octet =
     Alt (seqs [Chr CHR ''2'', Chr CHR ''5'', Cls [(CHR ''0'', CHR ''5'')]])
    (Alt (seqs [Chr CHR ''2'', Cls [(CHR ''0'', CHR ''4'')], Cls [(CHR ''0'', CHR ''9'')]])
         (seqs [Opt (Cls [(CHR ''0'', CHR ''1'')]), Cls [(CHR ''0'', CHR ''9'')],
                Opt (Cls [(CHR ''0'', CHR ''9'')])]))"

text \<open>
  \<^verbatim>\<open>/^(?:(?:25[0-5]|2[0-4][0-9]|[01]?[0-9][0-9]?)\.){3}(?:25[0-5]|2[0-4][0-9]|[01]?[0-9][0-9]?)$/\<close>
\<close>

definition ip_pattern :: regex where
  "ip_pattern = seqs [Bol, Quant (Seq octet (Chr CHR ''.'')) 3 (Some 3), octet, Eol]"

text \<open>A pattern literal without flags evaluates to a fresh object with \<open>lastIndex\<close> 0.\<close>

definition regexp_literal :: "regex \<Rightarrow> regexp" where
  "regexp_literal r = \<lparr>pattern = r, global = False, sticky = False, lastIndex = 0\<rparr>"

text \<open>
  \<^verbatim>\<open>
  function validateTarget(target) {
      if (!target || typeof target !== 'string') return false;
      const domainRegex = /.../;
      const ipRegex = /.../;
      return domainRegex.test(target) || ipRegex.test(target);
  }
  \<close>
  The result is \<open>Inl\<close> where the call would throw.
\<close>

definition validateTarget :: "jsval \<Rightarrow> exn + bool" where
  "validateTarget target =
     (if \<not> ToBoolean target \<or> typeof target \<noteq> ''string'' then Inr False
      else
        let domainRegex = regexp_literal domain_pattern;
            ipRegex = regexp_literal ip_pattern
        in case RegExp_test domainRegex target of
             Inl e \<Rightarrow> Inl e
           | Inr (a, domainRegex') \<Rightarrow>
               if a then Inr True
               else (case RegExp_test ipRegex target of
                       Inl e \<Rightarrow> Inl e
                     | Inr (b, ipRegex') \<Rightarrow> Inr b))"

section \<open>Date\<close>

text \<open>
  The time value of a Date is a number of milliseconds since 1970-01-01T00:00:00Z, negative
  before it. The functions below are those of the language definition. YearFromTime is
  defined there as the largest year whose first day is not after the time; here it is
  computed by a search upwards from an estimate that is not above it.
\<close>

definition msPerDay :: int where
  "msPerDay = 86400000"

definition Day :: "int \<Rightarrow> int" where
  "Day t = t div msPerDay"

definition DaysInYear :: "int \<Rightarrow> int" where
  "DaysInYear y =
     (if y mod 4 \<noteq> 0 then 365
      else if y mod 100 \<noteq> 0 then 366
      else if y mod 400 \<noteq> 0 then 365
      else 366)"

definition DayFromYear :: "int \<Rightarrow> int" where
  "DayFromYear y =
     365 * (y - 1970) + (y - 1969) div 4 - (y - 1901) div 100 + (y - 1601) div 400"

fun year_search :: "nat \<Rightarrow> int \<Rightarrow> int \<Rightarrow> int" where
  "year_search 0 y d = y"
| "year_search (Suc fuel) y d =
     (if DayFromYear (y + 1) \<le> d then year_search fuel (y + 1) d else y)"

definition YearFromTime :: "int \<Rightarrow> int" where
  "YearFromTime t =
     (let d = Day t;
          k = (if 0 \<le> d then d div 366 else d div 365);
          below = (if 0 \<le> k then 365 * k else 366 * k)
      in year_search (nat ((d - below) div 365 + 1)) (1970 + k) d)"

definition InLeapYear :: "int \<Rightarrow> int" where
  "InLeapYear t = DaysInYear (YearFromTime t) - 365"

definition DayWithinYear :: "int \<Rightarrow> int" where
  "DayWithinYear t = Day t - DayFromYear (YearFromTime t)"

definition MonthFromTime :: "int \<Rightarrow> int" where
  "MonthFromTime t =
     (let d = DayWithinYear t; leap = InLeapYear t
      in if d < 31 then 0
         else if d < 59 + leap then 1
         else if d < 90 + leap then 2
         else if d < 120 + leap then 3
         else if d < 151 + leap then 4
         else if d < 181 + leap then 5
         else if d < 212 + leap then 6
         else if d < 243 + leap then 7
         else if d < 273 + leap then 8
         else if d < 304 + leap then 9
         else if d < 334 + leap then 10
         else 11)"

definition DateFromTime :: "int \<Rightarrow> int" where
  "DateFromTime t =
     (let d = DayWithinYear t; leap = InLeapYear t; m = MonthFromTime t
      in if m = 0 then d + 1
         else if m = 1 then d - 30
         else if m = 2 then d - 58 - leap
         else if m = 3 then d - 89 - leap
         else if m = 4 then d - 119 - leap
         else if m = 5 then d - 150 - leap
         else if m = 6 then d - 180 - leap
         else if m = 7 then d - 211 - leap
         else if m = 8 then d - 242 - leap
         else if m = 9 then d - 272 - leap
         else if m = 10 then d - 303 - leap
         else d - 333 - leap)"

definition HourFromTime :: "int \<Rightarrow> int" where
  "HourFromTime t = (t div 3600000) mod 24"

definition MinFromTime :: "int \<Rightarrow> int" where
  "MinFromTime t = (t div 60000) mod 60"

definition SecFromTime :: "int \<Rightarrow> int" where
  "SecFromTime t = (t div 1000) mod 60"

definition msFromTime :: "int \<Rightarrow> int" where
  "msFromTime t = t mod 1000"

definition digit_unit :: "nat \<Rightarrow> code_unit" where
  "digit_unit n = of_nat (48 + n)"

function decimal_digits :: "nat \<Rightarrow> jstring" where
  "decimal_digits n =
     (if n < 10 then [digit_unit n]
      else decimal_digits (n div 10) @ [digit_unit (n mod 10)])"
  by pat_completeness auto
termination
  by (relation "measure id") auto

declare decimal_digits.simps [simp del]

definition ToZeroPaddedDecimalString :: "nat \<Rightarrow> nat \<Rightarrow> jstring" where
  "ToZeroPaddedDecimalString n minLength =
     replicate (minLength - length (decimal_digits n)) (of_char CHR ''0'') @ decimal_digits n"

text \<open>
  \<open>Date.prototype.toISOString\<close>: \<^verbatim>\<open>YYYY-MM-DDTHH:mm:ss.sssZ\<close> in UTC, the year as four digits
  from 0 to 9999 and otherwise as a sign and six digits.
\<close>

definition toISOString :: "int \<Rightarrow> jstring" where
  "toISOString t =
     (let y = YearFromTime t
      in (if 0 \<le> y \<and> y \<le> 9999 then ToZeroPaddedDecimalString (nat y) 4
          else (if y < 0 then js ''-'' else js ''+'') @ ToZeroPaddedDecimalString (nat \<bar>y\<bar>) 6)
         @ js ''-'' @ ToZeroPaddedDecimalString (nat (MonthFromTime t + 1)) 2
         @ js ''-'' @ ToZeroPaddedDecimalString (nat (DateFromTime t)) 2
         @ js ''T'' @ ToZeroPaddedDecimalString (nat (HourFromTime t)) 2
         @ js '':'' @ ToZeroPaddedDecimalString (nat (MinFromTime t)) 2
         @ js '':'' @ ToZeroPaddedDecimalString (nat (SecFromTime t)) 2
         @ js ''.'' @ ToZeroPaddedDecimalString (nat (msFromTime t)) 3
         @ js ''Z'')"

section \<open>The command runner\<close>

text \<open>
  What the operating system does with a command line: the shell cannot be spawned (with
  the message of the spawn error), or the child runs. A running child, left alone, exits
  after some milliseconds or never, with an exit status; \<open>stdout\<close> and \<open>stderr\<close> are
  what it has written by the time it ends, which stays within the buffer exec allows.
\<close>

datatype child =
    SpawnFails jstring
  | Runs "nat option" int jstring jstring

text \<open>
  \<open>child_process.exec(command, {timeout}, callback)\<close>: the arguments
  \<open>(error, stdout, stderr)\<close> the callback receives, \<open>error\<close> being \<open>None\<close> for \<open>null\<close> and
  otherwise the message of the Error; \<open>None\<close> as a whole when the callback is never called.
  With a positive timeout a child still running after that many milliseconds is sent the
  kill signal. A child that was killed or exited with a non-zero status is reported as
  \<^verbatim>\<open>Command failed: <command>\n<stderr>\<close>.
\<close>

definition exec :: "child \<Rightarrow> jstring \<Rightarrow> nat \<Rightarrow> (jstring option \<times> jstring \<times> jstring) option" where
  "exec ch command timeout =
     (case ch of
        SpawnFails message \<Rightarrow> Some (Some message, [], [])
      | Runs exits_after status stdout stderr \<Rightarrow>
          if 0 < timeout \<and> (case exits_after of None \<Rightarrow> True | Some t \<Rightarrow> timeout < t)
          then Some (Some (js ''Command failed: '' @ command @ [0x0A] @ stderr), stdout, stderr)
          else if exits_after = None then None
          else if status \<noteq> 0
          then Some (Some (js ''Command failed: '' @ command @ [0x0A] @ stderr), stdout, stderr)
          else Some (None, stdout, stderr))"

text \<open>
  What a request handler reads from outside: \<open>process.platform\<close>, the behaviour of the
  child a command line starts, and the time value of \<open>new Date()\<close> inside the callback.
\<close>

record world =
  platform :: jstring
  spawn :: "jstring \<Rightarrow> child"
  now :: int

text \<open>An object literal: its properties in order.\<close>

type_synonym jsobj = "(string \<times> jsval) list"

datatype promise = Resolved jsobj | Rejected jsobj | Pending

text \<open>
  \<^verbatim>\<open>
  function runCommand(command, timeout = 30000) {
      return new Promise((resolve, reject) => {
          exec(command, { timeout }, (error, stdout, stderr) => {
              if (error) {
                  reject({ success: false, error: error.message,
                           timestamp: new Date().toISOString() });
                  return;
              }
              resolve({ success: true, output: stdout || stderr,
                        timestamp: new Date().toISOString() });
          });
      });
  }
  \<close>
  The second component is the log of the calls made to \<open>exec\<close>: command line and timeout.
\<close>

definition runCommand :: "world \<Rightarrow> jstring \<Rightarrow> nat option \<Rightarrow> promise \<times> (jstring \<times> nat) list" where
  "runCommand w command timeout_arg =
     (let timeout = (case timeout_arg of None \<Rightarrow> 30000 | Some t \<Rightarrow> t)
      in ((case exec (spawn w command) command timeout of
             None \<Rightarrow> Pending
           | Some (error, stdout, stderr) \<Rightarrow>
               (case error of
                  Some message \<Rightarrow>
                    Rejected [(''success'', JBoolean False), (''error'', JString message),
                              (''timestamp'', JString (toISOString (now w)))]
                | None \<Rightarrow>
                    Resolved [(''success'', JBoolean True),
                              (''output'', JString (if stdout \<noteq> [] then stdout else stderr)),
                              (''timestamp'', JString (toISOString (now w)))])),
          [(command, timeout)]))"

section \<open>The two diagnostic endpoints\<close>

text \<open>
  \<open>req.body\<close> after \<open>express.json()\<close>: an object, read by property name, or \<open>None\<close> when
  the request left it undefined. A missing property reads as \<open>undefined\<close>.
\<close>

record request =
  body :: "(string \<rightharpoonup> jsval) option"

text \<open>
  How a handler ends: a response with its status and JSON body, an exception that leaves
  the handler uncaught, or no response at all.
\<close>

datatype outcome = Responded nat jsobj | Unhandled exn | NoResponse

definition invalid_target :: jsobj where
  "invalid_target =
     [(''success'', JBoolean False),
      (''error'', JString (js ''Invalid target. Please provide a valid domain or IP address.''))]"

text \<open>A template literal \<^verbatim>\<open>`prefix${v}`\<close> converts \<open>v\<close> to a string.\<close>

definition template :: "string \<Rightarrow> jsval \<Rightarrow> exn + jstring" where
  "template prefix v = (case ToString v of Inl e \<Rightarrow> Inl e | Inr s \<Rightarrow> Inr (js prefix @ s))"

text \<open>
  \<^verbatim>\<open>
  app.post('/api/ping', async (req, res) => {
      const { target } = req.body;
      if (!validateTarget(target)) {
          return res.status(400).json({ success: false, error: 'Invalid target. ...' });
      }
      try {
          const isWindows = process.platform === 'win32';
          const command = isWindows ? `ping -n 4 ${target}` : `ping -c 4 ${target}`;
          const result = await runCommand(command);
          res.json(result);
      } catch (error) {
          res.status(500).json(error);
      }
  });
  \<close>
  An exception thrown inside \<open>try\<close> is an Error object, whose JSON form has no property.
\<close>

definition post_api_ping :: "world \<Rightarrow> request \<Rightarrow> outcome \<times> (jstring \<times> nat) list" where
  "post_api_ping w req =
     (case body req of
        None \<Rightarrow> (Unhandled TypeError, [])
      | Some b \<Rightarrow>
          let target = (case b ''target'' of None \<Rightarrow> JUndefined | Some v \<Rightarrow> v)
          in (case validateTarget target of
                Inl e \<Rightarrow> (Unhandled e, [])
              | Inr valid \<Rightarrow>
                  if \<not> valid then (Responded 400 invalid_target, [])
                  else
                    let isWindows = (platform w = js ''win32'')
                    in (case (if isWindows then template ''ping -n 4 '' target
                              else template ''ping -c 4 '' target) of
                          Inl e \<Rightarrow> (Responded 500 [], [])
                        | Inr command \<Rightarrow>
                            (case runCommand w command None of
                               (Resolved result, calls) \<Rightarrow> (Responded 200 result, calls)
                             | (Rejected error, calls) \<Rightarrow> (Responded 500 error, calls)
                             | (Pending, calls) \<Rightarrow> (NoResponse, calls)))))"

text \<open>
  \<^verbatim>\<open>
  app.post('/api/traceroute', async (req, res) => {
      const { target } = req.body;
      if (!validateTarget(target)) {
          return res.status(400).json({ success: false, error: 'Invalid target. ...' });
      }
      try {
          const isWindows = process.platform === 'win32';
          const command = isWindows ? `tracert ${target}` : `traceroute ${target}`;
          const result = await runCommand(command, 60000);
          res.json(result);
      } catch (error) {
          res.status(500).json(error);
      }
  });
  \<close>
\<close>

definition post_api_traceroute :: "world \<Rightarrow> request \<Rightarrow> outcome \<times> (jstring \<times> nat) list" where
  "post_api_traceroute w req =
     (case body req of
        None \<Rightarrow> (Unhandled TypeError, [])
      | Some b \<Rightarrow>
          let target = (case b ''target'' of None \<Rightarrow> JUndefined | Some v \<Rightarrow> v)
          in (case validateTarget target of
                Inl e \<Rightarrow> (Unhandled e, [])
              | Inr valid \<Rightarrow>
                  if \<not> valid then (Responded 400 invalid_target, [])
                  else
                    let isWindows = (platform w = js ''win32'')
                    in (case (if isWindows then template ''tracert '' target
                              else template ''traceroute '' target) of
                          Inl e \<Rightarrow> (Responded 500 [], [])
                        | Inr command \<Rightarrow>
                            (case runCommand w command (Some 60000) of
                               (Resolved result, calls) \<Rightarrow> (Responded 200 result, calls)
                             | (Rejected error, calls) \<Rightarrow> (Responded 500 error, calls)
                             | (Pending, calls) \<Rightarrow> (NoResponse, calls)))))"


section \<open>The grammars of the specification\<close>

text \<open>
  The hostname grammar and the IPv4 grammar as the specification words them, over the
  labels between the dots of a string.
\<close>

definition is_alnum :: "code_unit \<Rightarrow> bool" where
  "is_alnum a = (of_char CHR ''a'' \<le> a \<and> a \<le> of_char CHR ''z'' \<or>
                 of_char CHR ''A'' \<le> a \<and> a \<le> of_char CHR ''Z'' \<or>
                 of_char CHR ''0'' \<le> a \<and> a \<le> of_char CHR ''9'')"

definition hyphen :: code_unit where "hyphen = of_char CHR ''-''"

definition dot :: code_unit where "dot = of_char CHR ''.''"

fun split_dots :: "jstring \<Rightarrow> jstring list" where
  "split_dots [] = [[]]"
| "split_dots (a # x) =
     (if a = dot then [] # split_dots x
      else (case split_dots x of [] \<Rightarrow> [[a]] | l # ls \<Rightarrow> (a # l) # ls))"

definition is_label :: "jstring \<Rightarrow> bool" where
  "is_label l = (1 \<le> length l \<and> length l \<le> 63 \<and> list_all (\<lambda>a. is_alnum a \<or> a = hyphen) l \<and>
                 hd l \<noteq> hyphen \<and> last l \<noteq> hyphen)"

definition hostname_grammar :: "jstring \<Rightarrow> bool" where
  "hostname_grammar s = list_all is_label (split_dots s)"

definition is_digit :: "code_unit \<Rightarrow> bool" where
  "is_digit a = (of_char CHR ''0'' \<le> a \<and> a \<le> of_char CHR ''9'')"

definition digit_value :: "code_unit \<Rightarrow> nat" where
  "digit_value a = unat a - 48"

definition decimal :: "jstring \<Rightarrow> nat" where
  "decimal l = foldl (\<lambda>n a. 10 * n + digit_value a) 0 l"

definition is_octet :: "jstring \<Rightarrow> bool" where
  "is_octet l = (1 \<le> length l \<and> length l \<le> 3 \<and> list_all is_digit l \<and> decimal l \<le> 255)"

definition ipv4_grammar :: "jstring \<Rightarrow> bool" where
  "ipv4_grammar s = (length (split_dots s) = 4 \<and> list_all is_octet (split_dots s))"

definition safe_char :: "code_unit \<Rightarrow> bool" where
  "safe_char a = (is_alnum a \<or> a = dot \<or> a = hyphen)"





section \<open>Outcomes of a child process, and what a message says\<close>

fun starts_with :: "jstring \<Rightarrow> jstring \<Rightarrow> bool" where
  "starts_with [] x = True"
| "starts_with (a # p) [] = False"
| "starts_with (a # p) (b # x) = (a = b \<and> starts_with p x)"

fun has_text :: "jstring \<Rightarrow> jstring \<Rightarrow> bool" where
  "has_text p [] = (p = [])"
| "has_text p (b # x) = (starts_with p (b # x) \<or> has_text p x)"

definition lower :: "code_unit \<Rightarrow> code_unit" where
  "lower a = (if of_char CHR ''A'' \<le> a \<and> a \<le> of_char CHR ''Z'' then a + 32 else a)"

definition references_timeout :: "jstring \<Rightarrow> bool" where
  "references_timeout message =
     (has_text (js ''time'') (map lower message) \<or> has_text (js ''deadline'') (map lower message))"


definition failure_envelope :: "world \<Rightarrow> jstring \<Rightarrow> jsobj" where
  "failure_envelope w message =
     [(''success'', JBoolean False), (''error'', JString message), (''timestamp'', JString (toISOString (now w)))]"

section \<open>Sample requests and worlds\<close>

definition target_request :: "jsval \<Rightarrow> request" where
  "target_request v = \<lparr>body = Some [''target'' \<mapsto> v]\<rparr>"

definition never_exits :: "jstring \<Rightarrow> child" where
  "never_exits command = Runs None 0 [] []"

definition world_at_start :: world where
  "world_at_start =
     \<lparr>platform = js ''linux'', spawn = never_exits, now = 1704067230000\<rparr>"

definition world_at_call :: world where
  "world_at_call = world_at_start\<lparr>platform := js ''win32''\<rparr>"



section \<open>The language of a pattern\<close>

text \<open>
  The set of strings a pattern without assertions matches, used to relate the matcher to
  the grammars.
\<close>

definition conc :: "jstring set \<Rightarrow> jstring set \<Rightarrow> jstring set" where
  "conc A B = {u @ v | u v. u \<in> A \<and> v \<in> B}"

fun lpow :: "jstring set \<Rightarrow> nat \<Rightarrow> jstring set" where
  "lpow A 0 = {[]}"
| "lpow A (Suc n) = conc A (lpow A n)"

definition within :: "nat \<Rightarrow> nat option \<Rightarrow> nat set" where
  "within mn mx = {n. mn \<le> n \<and> (case mx of None \<Rightarrow> True | Some k \<Rightarrow> n \<le> k)}"

fun lang :: "regex \<Rightarrow> jstring set" where
  "lang Bol = {}"
| "lang Eol = {}"
| "lang (Chr ch) = {[of_char ch]}"
| "lang (Cls rs) = {[a] | a. in_class rs a}"
| "lang (Seq r1 r2) = conc (lang r1) (lang r2)"
| "lang (Alt r1 r2) = lang r1 \<union> lang r2"
| "lang (Quant r mn mx) = (\<Union>n \<in> within mn mx. lpow (lang r) n)"

fun plain :: "regex \<Rightarrow> bool" where
  "plain Bol = False"
| "plain Eol = False"
| "plain (Chr ch) = True"
| "plain (Cls rs) = True"
| "plain (Seq r1 r2) = (plain r1 \<and> plain r2)"
| "plain (Alt r1 r2) = (plain r1 \<and> plain r2)"
| "plain (Quant r mn mx) = (plain r \<and> (case mx of None \<Rightarrow> True | Some k \<Rightarrow> mn \<le> k))"

fun join_dots :: "jstring list \<Rightarrow> jstring" where
  "join_dots [] = []"
| "join_dots [l] = l"
| "join_dots (l # ls) = l @ dot # join_dots ls"

definition Label :: "jstring set" where
  "Label = conc (lang alnum) (lang label_tail)"

definition between :: "nat \<Rightarrow> nat \<Rightarrow> jstring set" where
  "between lo hi = {[b] | b. lo \<le> unat b \<and> unat b \<le> hi}"

definition Octet :: "jstring set" where
  "Octet = lang octet"

section \<open>The matcher only moves forward\<close>

text \<open>
  A continuation is only ever applied to what remains at or after the current position,
  so the test \<open>length x \<le> length y\<close> of the quantifier is the comparison of end indices
  for equality.
\<close>

lemma matcher_cont_cong:
  "(\<And>y. length y \<le> length x \<Longrightarrow> k y = c y) \<Longrightarrow> matcher r s x k = matcher r s x c"
proof (induction r s x c arbitrary: k rule: matcher.induct)
  case (1 s x c)
  then show ?case by simp
next
  case (2 s x c)
  then show ?case by simp
next
  case (3 ch s x c)
  then show ?case by (cases x) simp_all
next
  case (4 rs s x c)
  then show ?case by (cases x) simp_all
next
  case (5 r1 r2 s x c)
  have "matcher r1 s x (\<lambda>y. matcher r2 s y k) = matcher r1 s x (\<lambda>y. matcher r2 s y c)"
  proof (rule "5.IH"(2))
    fix y :: jstring assume y: "length y \<le> length x"
    show "matcher r2 s y k = matcher r2 s y c"
    proof (rule "5.IH"(1))
      fix z :: jstring assume "length z \<le> length y"
      with y have "length z \<le> length x" by simp
      then show "k z = c z" by (rule "5.prems")
    qed
  qed
  then show ?case by simp
next
  case (6 r1 r2 s x c)
  have a: "matcher r1 s x k = matcher r1 s x c"
    by (rule "6.IH"(1)) (rule "6.prems")
  show ?case
  proof (cases "matcher r1 s x c")
    case None
    have "matcher r2 s x k = matcher r2 s x c"
      by (rule "6.IH"(2)[OF None]) (rule "6.prems")
    with a None show ?thesis by simp
  next
    case (Some z)
    with a show ?thesis by simp
  qed
next
  case (7 r mn mx s x c)
  let ?mx' = "map_option (\<lambda>n. n - 1) mx"
  have kx: "k x = c x" by (rule "7.prems") simp
  show ?case
  proof (cases "mx = Some 0")
    case True
    with kx show ?thesis by simp
  next
    case mx: False
    show ?thesis
    proof (cases "mn = 0")
      case False
      have "matcher r s x (\<lambda>y. matcher (Quant r (mn - 1) ?mx') s y k) =
            matcher r s x (\<lambda>y. matcher (Quant r (mn - 1) ?mx') s y c)"
      proof (rule "7.IH"(2)[OF mx False])
        fix y :: jstring assume y: "length y \<le> length x"
        show "matcher (Quant r (mn - 1) ?mx') s y k = matcher (Quant r (mn - 1) ?mx') s y c"
        proof (rule "7.IH"(1)[OF mx False])
          fix z :: jstring assume "length z \<le> length y"
          with y have "length z \<le> length x" by simp
          then show "k z = c z" by (rule "7.prems")
        qed
      qed
      with mx False show ?thesis by simp
    next
      case True
      have "matcher r s x (\<lambda>y. if length x \<le> length y then None
                                else matcher (Quant r 0 ?mx') s y k) =
            matcher r s x (\<lambda>y. if length x \<le> length y then None
                                else matcher (Quant r 0 ?mx') s y c)"
      proof (rule "7.IH"(4)[OF mx])
        show "\<not> mn \<noteq> 0" using True by simp
      next
        fix y :: jstring assume y: "length y \<le> length x"
        show "(if length x \<le> length y then None else matcher (Quant r 0 ?mx') s y k) =
              (if length x \<le> length y then None else matcher (Quant r 0 ?mx') s y c)"
        proof (cases "length x \<le> length y")
          case True
          then show ?thesis by simp
        next
          case False
          have "matcher (Quant r 0 ?mx') s y k = matcher (Quant r 0 ?mx') s y c"
          proof (rule "7.IH"(3)[OF mx _ False])
            show "\<not> mn \<noteq> 0" using True by simp
          next
            fix z :: jstring assume "length z \<le> length y"
            with y have "length z \<le> length x" by simp
            then show "k z = c z" by (rule "7.prems")
          qed
          with False show ?thesis by simp
        qed
      qed
      with mx True show ?thesis by (simp add: kx cong: option.case_cong)
    qed
  qed
qed

lemma empty_check_is_equality:
  "matcher r s x (\<lambda>y. if length x \<le> length y then None else c y) =
   matcher r s x (\<lambda>y. if length y = length x then None else c y)"
  by (rule matcher_cont_cong) auto

section \<open>The matcher computes the language\<close>

lemma conc_iff: "w \<in> conc A B \<longleftrightarrow> (\<exists>u v. w = u @ v \<and> u \<in> A \<and> v \<in> B)"
  by (auto simp: conc_def)

lemma lpow_drop_empty:
  "w \<in> lpow L n \<Longrightarrow> w \<noteq> [] \<Longrightarrow> \<exists>u v k. w = u @ v \<and> u \<noteq> [] \<and> u \<in> L \<and> k < n \<and> v \<in> lpow L k"
proof (induction n)
  case 0
  then show ?case by simp
next
  case (Suc n)
  from Suc.prems(1) obtain u v where w: "w = u @ v" "u \<in> L" "v \<in> lpow L n"
    by (auto simp: conc_iff)
  show ?case
  proof (cases "u = []")
    case True
    with w Suc.prems(2) have "w \<in> lpow L n" "w \<noteq> []" by auto
    from Suc.IH[OF this] obtain u' v' k where
      "w = u' @ v'" "u' \<noteq> []" "u' \<in> L" "k < n" "v' \<in> lpow L k" by blast
    then have "w = u' @ v' \<and> u' \<noteq> [] \<and> u' \<in> L \<and> k < Suc n \<and> v' \<in> lpow L k" by simp
    then show ?thesis by blast
  next
    case False
    with w show ?thesis by blast
  qed
qed

lemma quant_step_pos:
  assumes "mn \<noteq> 0" "mx \<noteq> Some 0"
  shows "(w \<in> (\<Union>n \<in> within mn mx. lpow L n)) \<longleftrightarrow>
         (\<exists>u v. w = u @ v \<and> u \<in> L \<and> v \<in> (\<Union>n \<in> within (mn - 1) (map_option (\<lambda>n. n - 1) mx). lpow L n))"
proof
  assume "w \<in> (\<Union>n \<in> within mn mx. lpow L n)"
  then obtain n where n: "n \<in> within mn mx" "w \<in> lpow L n" by blast
  with assms obtain k where k: "n = Suc k" by (cases n) (auto simp: within_def)
  with n have "k \<in> within (mn - 1) (map_option (\<lambda>n. n - 1) mx)"
    by (auto simp: within_def split: option.splits)
  with n k show "\<exists>u v. w = u @ v \<and> u \<in> L \<and> v \<in> (\<Union>n \<in> within (mn - 1) (map_option (\<lambda>n. n - 1) mx). lpow L n)"
    by (auto simp: conc_iff)
next
  assume "\<exists>u v. w = u @ v \<and> u \<in> L \<and> v \<in> (\<Union>n \<in> within (mn - 1) (map_option (\<lambda>n. n - 1) mx). lpow L n)"
  then obtain u v k where *: "w = u @ v" "u \<in> L" "k \<in> within (mn - 1) (map_option (\<lambda>n. n - 1) mx)" "v \<in> lpow L k"
    by blast
  with assms have "Suc k \<in> within mn mx"
    by (auto simp: within_def split: option.splits)
  moreover from * have "w \<in> lpow L (Suc k)" by (auto simp: conc_iff)
  ultimately show "w \<in> (\<Union>n \<in> within mn mx. lpow L n)" by blast
qed

lemma quant_step_zero:
  assumes "mx \<noteq> Some 0"
  shows "(w \<in> (\<Union>n \<in> within 0 mx. lpow L n)) \<longleftrightarrow>
         (w = [] \<or> (\<exists>u v. w = u @ v \<and> u \<noteq> [] \<and> u \<in> L \<and> v \<in> (\<Union>n \<in> within 0 (map_option (\<lambda>n. n - 1) mx). lpow L n)))"
proof
  assume "w \<in> (\<Union>n \<in> within 0 mx. lpow L n)"
  then obtain n where n: "n \<in> within 0 mx" "w \<in> lpow L n" by blast
  show "w = [] \<or> (\<exists>u v. w = u @ v \<and> u \<noteq> [] \<and> u \<in> L \<and> v \<in> (\<Union>n \<in> within 0 (map_option (\<lambda>n. n - 1) mx). lpow L n))"
  proof (cases "w = []")
    case True then show ?thesis by simp
  next
    case False
    from lpow_drop_empty[OF n(2) False] obtain u v k where
      *: "w = u @ v" "u \<noteq> []" "u \<in> L" "k < n" "v \<in> lpow L k" by blast
    from n(1) *(4) have "k \<in> within 0 (map_option (\<lambda>n. n - 1) mx)"
      by (auto simp: within_def split: option.splits)
    with * show ?thesis by blast
  qed
next
  assume r: "w = [] \<or> (\<exists>u v. w = u @ v \<and> u \<noteq> [] \<and> u \<in> L \<and> v \<in> (\<Union>n \<in> within 0 (map_option (\<lambda>n. n - 1) mx). lpow L n))"
  show "w \<in> (\<Union>n \<in> within 0 mx. lpow L n)"
  proof (cases "w = []")
    case True
    have "0 \<in> within 0 mx" by (auto simp: within_def split: option.splits)
    moreover have "w \<in> lpow L 0" using True by simp
    ultimately show ?thesis by blast
  next
    case False
    with r obtain u v k where *: "w = u @ v" "u \<in> L" "k \<in> within 0 (map_option (\<lambda>n. n - 1) mx)" "v \<in> lpow L k"
      by blast
    with assms have "Suc k \<in> within 0 mx"
      by (auto simp: within_def split: option.splits)
    moreover from * have "w \<in> lpow L (Suc k)" by (auto simp: conc_iff)
    ultimately show ?thesis by blast
  qed
qed

lemma single_split:
  "(\<exists>u y. x = u @ y \<and> (\<exists>a. u = [a] \<and> P a) \<and> Q y) = (\<exists>a l. x = a # l \<and> P a \<and> Q l)"
proof
  assume "\<exists>u y. x = u @ y \<and> (\<exists>a. u = [a] \<and> P a) \<and> Q y"
  then show "\<exists>a l. x = a # l \<and> P a \<and> Q l" by auto
next
  assume "\<exists>a l. x = a # l \<and> P a \<and> Q l"
  then obtain a l where "x = [a] @ l" "P a" "Q l" by auto
  then show "\<exists>u y. x = u @ y \<and> (\<exists>a. u = [a] \<and> P a) \<and> Q y" by blast
qed

lemma conc_split:
  "(\<exists>w z. x = w @ z \<and> w \<in> conc A B \<and> Q z) =
   (\<exists>u y. x = u @ y \<and> u \<in> A \<and> (\<exists>v z. y = v @ z \<and> v \<in> B \<and> Q z))"
proof
  assume "\<exists>w z. x = w @ z \<and> w \<in> conc A B \<and> Q z"
  then obtain u v z where "x = (u @ v) @ z" "u \<in> A" "v \<in> B" "Q z"
    by (auto simp: conc_iff)
  then have "x = u @ (v @ z) \<and> u \<in> A \<and> (\<exists>v' z'. v @ z = v' @ z' \<and> v' \<in> B \<and> Q z')"
    by auto
  then show "\<exists>u y. x = u @ y \<and> u \<in> A \<and> (\<exists>v z. y = v @ z \<and> v \<in> B \<and> Q z)"
    by blast
next
  assume "\<exists>u y. x = u @ y \<and> u \<in> A \<and> (\<exists>v z. y = v @ z \<and> v \<in> B \<and> Q z)"
  then obtain u v z where "x = u @ v @ z" "u \<in> A" "v \<in> B" "Q z" by auto
  then have "x = (u @ v) @ z \<and> u @ v \<in> conc A B \<and> Q z"
    by (auto simp: conc_iff)
  then show "\<exists>w z. x = w @ z \<and> w \<in> conc A B \<and> Q z" by blast
qed

lemma quant_pos_split:
  assumes "mn \<noteq> 0" "mx \<noteq> Some 0"
  shows "(\<exists>w z. x = w @ z \<and> w \<in> (\<Union>n \<in> within mn mx. lpow L n) \<and> Q z) =
    (\<exists>u y. x = u @ y \<and> u \<in> L \<and>
       (\<exists>v z. y = v @ z \<and> v \<in> (\<Union>n \<in> within (mn - 1) (map_option (\<lambda>n. n - 1) mx). lpow L n) \<and> Q z))"
proof -
  have "(\<Union>n \<in> within mn mx. lpow L n) =
        conc L (\<Union>n \<in> within (mn - 1) (map_option (\<lambda>n. n - 1) mx). lpow L n)"
  proof (rule set_eqI)
    fix w
    show "w \<in> (\<Union>n \<in> within mn mx. lpow L n) \<longleftrightarrow>
          w \<in> conc L (\<Union>n \<in> within (mn - 1) (map_option (\<lambda>n. n - 1) mx). lpow L n)"
      unfolding conc_iff by (rule quant_step_pos[OF assms])
  qed
  then show ?thesis by (simp only: conc_split)
qed

lemma quant_zero_split:
  assumes "mx \<noteq> Some 0"
  shows "(\<exists>w z. x = w @ z \<and> w \<in> (\<Union>n \<in> within 0 mx. lpow L n) \<and> Q z) =
    (Q x \<or> (\<exists>u y. x = u @ y \<and> u \<in> L \<and> u \<noteq> [] \<and>
       (\<exists>v z. y = v @ z \<and> v \<in> (\<Union>n \<in> within 0 (map_option (\<lambda>n. n - 1) mx). lpow L n) \<and> Q z)))"
  (is "?lhs = (Q x \<or> ?rhs)")
proof
  assume ?lhs
  then obtain w z where wz: "x = w @ z" "w \<in> (\<Union>n \<in> within 0 mx. lpow L n)" "Q z" by blast
  show "Q x \<or> ?rhs"
  proof (cases "w = []")
    case True
    with wz show ?thesis by simp
  next
    case False
    with wz(2) quant_step_zero[OF assms, of w L] obtain u v where
      uv: "w = u @ v" "u \<noteq> []" "u \<in> L"
          "v \<in> (\<Union>n \<in> within 0 (map_option (\<lambda>n. n - 1) mx). lpow L n)"
      by blast
    with wz have "x = u @ (v @ z) \<and> u \<in> L \<and> u \<noteq> [] \<and>
       (\<exists>v' z'. v @ z = v' @ z' \<and> v' \<in> (\<Union>n \<in> within 0 (map_option (\<lambda>n. n - 1) mx). lpow L n) \<and> Q z')"
      by auto
    then have ?rhs by blast
    then show ?thesis ..
  qed
next
  assume "Q x \<or> ?rhs"
  then show ?lhs
  proof
    assume "Q x"
    moreover have "[] \<in> (\<Union>n \<in> within 0 mx. lpow L n)"
      using quant_step_zero[OF assms, of "[]" L] by simp
    ultimately have "x = [] @ x \<and> [] \<in> (\<Union>n \<in> within 0 mx. lpow L n) \<and> Q x" by simp
    then show ?lhs by blast
  next
    assume ?rhs
    then obtain u v z where uv: "x = u @ v @ z" "u \<in> L" "u \<noteq> []"
       "v \<in> (\<Union>n \<in> within 0 (map_option (\<lambda>n. n - 1) mx). lpow L n)" "Q z"
      by auto
    then have "u @ v \<in> (\<Union>n \<in> within 0 mx. lpow L n)"
      using quant_step_zero[OF assms, of "u @ v" L] by blast
    with uv have "x = (u @ v) @ z \<and> u @ v \<in> (\<Union>n \<in> within 0 mx. lpow L n) \<and> Q z" by simp
    then show ?lhs by blast
  qed
qed

lemma matcher_lang:
  "plain r \<Longrightarrow> (matcher r s x c \<noteq> None) = (\<exists>u y. x = u @ y \<and> u \<in> lang r \<and> c y \<noteq> None)"
proof (induction r s x c rule: matcher.induct)
  case (1 s x c)
  then show ?case by simp
next
  case (2 s x c)
  then show ?case by simp
next
  case (3 ch s x c)
  then show ?case by (cases x) (auto simp: Cons_eq_append_conv)
next
  case (4 rs s x c)
  show ?case
  proof (cases x)
    case Nil
    then show ?thesis by simp
  next
    case (Cons a l)
    have "(\<exists>u y. a # l = u @ y \<and> (\<exists>b. u = [b] \<and> in_class rs b) \<and> c y \<noteq> None) =
          (\<exists>b k. a # l = b # k \<and> in_class rs b \<and> c k \<noteq> None)"
      by (rule single_split)
    with Cons show ?thesis by simp
  qed
next
  case (5 r1 r2 s x c)
  from "5.prems" have p: "plain r1" "plain r2" by simp_all
  show ?case
    by (simp only: matcher.simps lang.simps conc_split "5.IH"(2)[OF p(1)] "5.IH"(1)[OF p(2)])
next
  case (6 r1 r2 s x c)
  then show ?case
    by (cases "matcher r1 s x c") auto
next
  case (7 r mn mx s x c)
  let ?mx' = "map_option (\<lambda>n. n - 1) mx"
  from "7.prems" have pr: "plain r" by simp
  show ?case
  proof (cases "mx = Some 0")
    case True
    with "7.prems" have "mn = 0" by simp
    with True show ?thesis by (simp add: within_def)
  next
    case mx: False
    show ?thesis
    proof (cases "mn = 0")
      case False
      from "7.prems" False mx have pl: "plain (Quant r (mn - 1) ?mx')"
        by (auto split: option.splits)
      have inner: "\<And>y. (matcher (Quant r (mn - 1) ?mx') s y c \<noteq> None) =
            (\<exists>v z. y = v @ z \<and> v \<in> (\<Union>n \<in> within (mn - 1) ?mx'. lpow (lang r) n) \<and> c z \<noteq> None)"
        using "7.IH"(1)[OF mx False pl] by simp
      have "(matcher (Quant r mn mx) s x c \<noteq> None) =
            (\<exists>u y. x = u @ y \<and> u \<in> lang r \<and> matcher (Quant r (mn - 1) ?mx') s y c \<noteq> None)"
        using "7.IH"(2)[OF mx False pr] mx False by simp
      also have "\<dots> = (\<exists>w z. x = w @ z \<and> w \<in> (\<Union>n \<in> within mn mx. lpow (lang r) n) \<and> c z \<noteq> None)"
        unfolding inner
        by (rule quant_pos_split[OF False mx, where Q = "\<lambda>z. c z \<noteq> None", symmetric])
      finally show ?thesis by simp
    next
      case True
      from "7.prems" True mx have pl: "plain (Quant r 0 ?mx')"
        by (auto split: option.splits)
      have inner: "\<And>y. \<not> length x \<le> length y \<Longrightarrow> (matcher (Quant r 0 ?mx') s y c \<noteq> None) =
            (\<exists>v z. y = v @ z \<and> v \<in> (\<Union>n \<in> within 0 ?mx'. lpow (lang r) n) \<and> c z \<noteq> None)"
        using "7.IH"(3)[OF mx _ _ pl] True by simp
      let ?d = "\<lambda>y. if length x \<le> length y then None else matcher (Quant r 0 ?mx') s y c"
      have body: "(matcher r s x ?d \<noteq> None) = (\<exists>u y. x = u @ y \<and> u \<in> lang r \<and> ?d y \<noteq> None)"
        using "7.IH"(4)[OF mx _ pr] True by simp
      have d: "\<And>u y. x = u @ y \<Longrightarrow> (u \<in> lang r \<and> ?d y \<noteq> None) =
           (u \<in> lang r \<and> u \<noteq> [] \<and> (\<exists>v z. y = v @ z \<and> v \<in> (\<Union>n \<in> within 0 ?mx'. lpow (lang r) n) \<and> c z \<noteq> None))"
      proof -
        fix u y assume xy: "x = u @ y"
        show "(u \<in> lang r \<and> ?d y \<noteq> None) =
           (u \<in> lang r \<and> u \<noteq> [] \<and> (\<exists>v z. y = v @ z \<and> v \<in> (\<Union>n \<in> within 0 ?mx'. lpow (lang r) n) \<and> c z \<noteq> None))"
        proof (cases "u = []")
          case True
          with xy show ?thesis by simp
        next
          case False
          with xy have "\<not> length x \<le> length y" by simp
          from inner[OF this] this False show ?thesis by simp
        qed
      qed
      have "(matcher (Quant r mn mx) s x c \<noteq> None) = (c x \<noteq> None \<or> matcher r s x ?d \<noteq> None)"
        using mx True by (auto split: option.splits)
      also have "\<dots> = (c x \<noteq> None \<or> (\<exists>u y. x = u @ y \<and> u \<in> lang r \<and> u \<noteq> [] \<and>
                 (\<exists>v z. y = v @ z \<and> v \<in> (\<Union>n \<in> within 0 ?mx'. lpow (lang r) n) \<and> c z \<noteq> None)))"
        unfolding body
        by (intro arg_cong2[where f = "(\<or>)"] refl iff_exI conj_cong d)
      also have "\<dots> = (\<exists>w z. x = w @ z \<and> w \<in> (\<Union>n \<in> within 0 mx. lpow (lang r) n) \<and> c z \<noteq> None)"
        by (rule quant_zero_split[OF mx, where Q = "\<lambda>z. c z \<noteq> None", symmetric])
      finally show ?thesis using True by simp
    qed
  qed
qed

section \<open>Joining and splitting at dots\<close>

lemma split_dots_nonempty: "split_dots s \<noteq> []"
  by (induction s) (auto split: list.splits)

lemma join_split: "join_dots (split_dots s) = s"
proof (induction s)
  case Nil
  then show ?case by simp
next
  case (Cons a s)
  obtain l ls where sp: "split_dots s = l # ls"
    using split_dots_nonempty[of s] by (cases "split_dots s") auto
  show ?case
  proof (cases "a = dot")
    case True
    with Cons sp show ?thesis by simp
  next
    case False
    with Cons sp show ?thesis by (cases ls) auto
  qed
qed

lemma split_no_dot: "dot \<notin> set l \<Longrightarrow> split_dots l = [l]"
  by (induction l) auto

lemma split_append_dot: "dot \<notin> set l \<Longrightarrow> split_dots (l @ dot # x) = l # split_dots x"
  by (induction l) auto

lemma split_join:
  "ls \<noteq> [] \<Longrightarrow> \<forall>l \<in> set ls. dot \<notin> set l \<Longrightarrow> split_dots (join_dots ls) = ls"
proof (induction ls rule: join_dots.induct)
  case 1
  then show ?case by simp
next
  case (2 l)
  then show ?case by (simp add: split_no_dot)
next
  case (3 l v va)
  then show ?case by (simp add: split_append_dot)
qed

lemma grammar_via_join:
  assumes "\<And>l. l \<in> L \<Longrightarrow> dot \<notin> set l"
  shows "(\<exists>ls. ls \<noteq> [] \<and> set ls \<subseteq> L \<and> s = join_dots ls) \<longleftrightarrow> set (split_dots s) \<subseteq> L"
proof
  assume "\<exists>ls. ls \<noteq> [] \<and> set ls \<subseteq> L \<and> s = join_dots ls"
  then obtain ls where ls: "ls \<noteq> []" "set ls \<subseteq> L" "s = join_dots ls" by blast
  with assms have "split_dots s = ls" by (auto intro: split_join)
  with ls show "set (split_dots s) \<subseteq> L" by simp
next
  assume "set (split_dots s) \<subseteq> L"
  then have "split_dots s \<noteq> [] \<and> set (split_dots s) \<subseteq> L \<and> s = join_dots (split_dots s)"
    by (simp add: split_dots_nonempty join_split)
  then show "\<exists>ls. ls \<noteq> [] \<and> set ls \<subseteq> L \<and> s = join_dots ls" by blast
qed

lemma concI: "u \<in> A \<Longrightarrow> v \<in> B \<Longrightarrow> u @ v \<in> conc A B"
  by (auto simp: conc_iff)

lemma conc_assoc: "conc (conc A B) C = conc A (conc B C)"
proof (rule set_eqI)
  fix w
  show "w \<in> conc (conc A B) C \<longleftrightarrow> w \<in> conc A (conc B C)"
  proof
    assume "w \<in> conc (conc A B) C"
    then obtain u v z where "w = (u @ v) @ z" "u \<in> A" "v \<in> B" "z \<in> C"
      by (auto simp: conc_iff)
    then have "w = u @ (v @ z) \<and> u \<in> A \<and> v @ z \<in> conc B C" by (auto simp: conc_iff)
    then show "w \<in> conc A (conc B C)" unfolding conc_iff[of w A] by blast
  next
    assume "w \<in> conc A (conc B C)"
    then obtain u v z where "w = u @ (v @ z)" "u \<in> A" "v \<in> B" "z \<in> C"
      by (auto simp: conc_iff)
    then have "w = (u @ v) @ z \<and> u @ v \<in> conc A B \<and> z \<in> C" by (auto simp: conc_iff)
    then show "w \<in> conc (conc A B) C" unfolding conc_iff[of w "conc A B"] by blast
  qed
qed

lemma head_then_dotted:
  "w \<in> conc L (lpow (conc {[dot]} L) n) \<longleftrightarrow>
   (\<exists>ls. length ls = Suc n \<and> set ls \<subseteq> L \<and> w = join_dots ls)"
proof (induction n arbitrary: w)
  case 0
  show ?case
  proof
    assume "w \<in> conc L (lpow (conc {[dot]} L) 0)"
    then have "length [w] = Suc 0 \<and> set [w] \<subseteq> L \<and> w = join_dots [w]" by (auto simp: conc_iff)
    then show "\<exists>ls. length ls = Suc 0 \<and> set ls \<subseteq> L \<and> w = join_dots ls" by blast
  next
    assume "\<exists>ls. length ls = Suc 0 \<and> set ls \<subseteq> L \<and> w = join_dots ls"
    then obtain ls where ls: "length ls = Suc 0" "set ls \<subseteq> L" "w = join_dots ls" by blast
    then obtain l where "ls = [l]" by (cases ls) auto
    with ls show "w \<in> conc L (lpow (conc {[dot]} L) 0)" by (auto simp: conc_iff)
  qed
next
  case (Suc n)
  show ?case
  proof
    assume "w \<in> conc L (lpow (conc {[dot]} L) (Suc n))"
    then obtain l d v where w: "w = l @ d @ v" "l \<in> L" "d \<in> conc {[dot]} L"
        "v \<in> lpow (conc {[dot]} L) n"
      by (auto simp: conc_iff)
    then obtain l2 where d: "d = dot # l2" "l2 \<in> L" by (auto simp: conc_iff)
    with w have "l2 @ v \<in> conc L (lpow (conc {[dot]} L) n)" by (auto simp: conc_iff)
    with Suc.IH obtain ls where ls: "length ls = Suc n" "set ls \<subseteq> L" "l2 @ v = join_dots ls"
      by blast
    then obtain k ks where "ls = k # ks" by (cases ls) auto
    with w d ls have "length (l # ls) = Suc (Suc n) \<and> set (l # ls) \<subseteq> L \<and> w = join_dots (l # ls)"
      by simp
    then show "\<exists>ls. length ls = Suc (Suc n) \<and> set ls \<subseteq> L \<and> w = join_dots ls" by blast
  next
    assume "\<exists>ls. length ls = Suc (Suc n) \<and> set ls \<subseteq> L \<and> w = join_dots ls"
    then obtain ls where ls: "length ls = Suc (Suc n)" "set ls \<subseteq> L" "w = join_dots ls" by blast
    then obtain l k ks where lk: "ls = l # k # ks" by (cases ls; cases "tl ls") auto
    with ls have "length (k # ks) = Suc n \<and> set (k # ks) \<subseteq> L \<and> join_dots (k # ks) = join_dots (k # ks)"
      by simp
    then have "join_dots (k # ks) \<in> conc L (lpow (conc {[dot]} L) n)"
      using Suc.IH by blast
    then obtain l2 v where v: "join_dots (k # ks) = l2 @ v" "l2 \<in> L" "v \<in> lpow (conc {[dot]} L) n"
      by (auto simp: conc_iff)
    then have "[dot] @ l2 \<in> conc {[dot]} L" by (intro concI) simp_all
    with v have "(dot # l2) @ v \<in> lpow (conc {[dot]} L) (Suc n)"
      unfolding lpow.simps by (intro concI) simp_all
    moreover from ls lk v have "w = l @ (dot # l2) @ v" "l \<in> L" by auto
    ultimately show "w \<in> conc L (lpow (conc {[dot]} L) (Suc n))"
      unfolding conc_iff[of w L] by blast
  qed
qed

lemma dotted_then_last:
  "w \<in> conc (lpow (conc L {[dot]}) n) L \<longleftrightarrow>
   (\<exists>ls. length ls = Suc n \<and> set ls \<subseteq> L \<and> w = join_dots ls)"
proof (induction n arbitrary: w)
  case 0
  show ?case
  proof
    assume "w \<in> conc (lpow (conc L {[dot]}) 0) L"
    then have "length [w] = Suc 0 \<and> set [w] \<subseteq> L \<and> w = join_dots [w]" by (auto simp: conc_iff)
    then show "\<exists>ls. length ls = Suc 0 \<and> set ls \<subseteq> L \<and> w = join_dots ls" by blast
  next
    assume "\<exists>ls. length ls = Suc 0 \<and> set ls \<subseteq> L \<and> w = join_dots ls"
    then obtain ls where ls: "length ls = Suc 0" "set ls \<subseteq> L" "w = join_dots ls" by blast
    then obtain l where "ls = [l]" by (cases ls) auto
    with ls show "w \<in> conc (lpow (conc L {[dot]}) 0) L" by (auto simp: conc_iff)
  qed
next
  case (Suc n)
  have assoc: "conc (lpow (conc L {[dot]}) (Suc n)) L =
               conc (conc L {[dot]}) (conc (lpow (conc L {[dot]}) n) L)"
    by (simp add: conc_assoc)
  show ?case
  proof
    assume "w \<in> conc (lpow (conc L {[dot]}) (Suc n)) L"
    then obtain d v where w: "w = d @ v" "d \<in> conc L {[dot]}" "v \<in> conc (lpow (conc L {[dot]}) n) L"
      unfolding assoc by (auto simp: conc_iff)
    then obtain l where d: "d = l @ [dot]" "l \<in> L" by (auto simp: conc_iff)
    from w Suc.IH obtain ls where ls: "length ls = Suc n" "set ls \<subseteq> L" "v = join_dots ls"
      by blast
    then obtain k ks where "ls = k # ks" by (cases ls) auto
    with w d ls have "length (l # ls) = Suc (Suc n) \<and> set (l # ls) \<subseteq> L \<and> w = join_dots (l # ls)"
      by simp
    then show "\<exists>ls. length ls = Suc (Suc n) \<and> set ls \<subseteq> L \<and> w = join_dots ls" by blast
  next
    assume "\<exists>ls. length ls = Suc (Suc n) \<and> set ls \<subseteq> L \<and> w = join_dots ls"
    then obtain ls where ls: "length ls = Suc (Suc n)" "set ls \<subseteq> L" "w = join_dots ls" by blast
    then obtain l k ks where lk: "ls = l # k # ks" by (cases ls; cases "tl ls") auto
    with ls have "length (k # ks) = Suc n \<and> set (k # ks) \<subseteq> L \<and> join_dots (k # ks) = join_dots (k # ks)"
      by simp
    then have "join_dots (k # ks) \<in> conc (lpow (conc L {[dot]}) n) L"
      using Suc.IH by blast
    moreover from ls lk have "w = (l @ [dot]) @ join_dots (k # ks)" "l @ [dot] \<in> conc L {[dot]}"
      by (auto simp: conc_iff)
    ultimately show "w \<in> conc (lpow (conc L {[dot]}) (Suc n)) L"
      unfolding assoc conc_iff[of w "conc L {[dot]}"] by blast
  qed
qed

section \<open>The hostname pattern\<close>

lemma conc_empty_right: "conc L {[]} = L"
  by (auto simp: conc_def)

lemma within_opt: "within 0 (Some (Suc 0)) = {0, Suc 0}"
  by (auto simp: within_def)

lemma lang_opt: "lang (Opt r) = insert [] (lang r)"
  by (simp add: within_opt conc_empty_right)

lemma conc_single_Cons: "(a # t \<in> conc {[b] | b. P b} X) = (P a \<and> t \<in> X)"
proof
  assume "a # t \<in> conc {[b] | b. P b} X"
  then obtain b v where "a # t = [b] @ v" "P b" "v \<in> X" by (auto simp: conc_iff)
  then show "P a \<and> t \<in> X" by simp
next
  assume "P a \<and> t \<in> X"
  then have "[a] @ t \<in> conc {[b] | b. P b} X" by (intro concI) auto
  then show "a # t \<in> conc {[b] | b. P b} X" by simp
qed

lemma conc_single_Nil: "[] \<notin> conc {[b] | b. P b} X"
  by (auto simp: conc_iff)

lemma lpow_class:
  "lpow {[a] | a. P a} n = {w. length w = n \<and> (\<forall>a \<in> set w. P a)}"
proof (induction n)
  case 0
  then show ?case by auto
next
  case (Suc n)
  show ?case
  proof (rule set_eqI)
    fix w
    show "w \<in> lpow {[a] | a. P a} (Suc n) \<longleftrightarrow> w \<in> {w. length w = Suc n \<and> (\<forall>a \<in> set w. P a)}"
    proof (cases w)
      case Nil
      then show ?thesis by (simp add: conc_single_Nil)
    next
      case (Cons a t)
      then show ?thesis by (auto simp: conc_single_Cons Suc.IH)
    qed
  qed
qed

lemma lang_bounded_class:
  "lang (Quant (Cls rs) 0 (Some k)) = {w. length w \<le> k \<and> (\<forall>a \<in> set w. in_class rs a)}"
  by (auto simp: lpow_class within_def)

lemma in_class_alnum:
  "in_class [(CHR ''a'', CHR ''z''), (CHR ''A'', CHR ''Z''), (CHR ''0'', CHR ''9'')] a = is_alnum a"
  by (simp add: in_class_def is_alnum_def)

lemma in_class_alnum_hyphen:
  "in_class [(CHR ''a'', CHR ''z''), (CHR ''A'', CHR ''Z''), (CHR ''0'', CHR ''9''),
             (CHR ''-'', CHR ''-'')] a = (is_alnum a \<or> a = hyphen)"
  by (auto simp: in_class_def is_alnum_def hyphen_def)

lemma alnum_not_hyphen: "is_alnum a \<Longrightarrow> a \<noteq> hyphen"
  by (auto simp: is_alnum_def hyphen_def)

lemma alnum_not_dot: "is_alnum a \<Longrightarrow> a \<noteq> dot"
  by (auto simp: is_alnum_def dot_def)

lemma hyphen_not_dot: "hyphen \<noteq> dot"
  by (simp add: hyphen_def dot_def)

lemma lang_alnum: "lang alnum = {[a] | a. is_alnum a}"
  by (simp add: alnum_def in_class_alnum)

lemma lang_alnum_hyphens:
  "lang (Quant alnum_hyphen 0 (Some 61)) =
   {w. length w \<le> 61 \<and> (\<forall>c \<in> set w. is_alnum c \<or> c = hyphen)}"
  unfolding alnum_hyphen_def by (simp only: lang_bounded_class in_class_alnum_hyphen)

lemma lang_label_tail:
  "lang label_tail =
   insert [] (conc {w. length w \<le> 61 \<and> (\<forall>c \<in> set w. is_alnum c \<or> c = hyphen)}
                   {[a] | a. is_alnum a})"
  unfolding label_tail_def lang_opt lang.simps(5) lang_alnum_hyphens lang_alnum ..

lemma conc_single_snoc:
  "(t \<in> conc X {[b] | b. P b}) = (\<exists>mid b. t = mid @ [b] \<and> mid \<in> X \<and> P b)"
  by (auto simp: conc_iff)

lemma Label_iff:
  "l \<in> Label \<longleftrightarrow>
   (\<exists>a. is_alnum a \<and> (l = [a] \<or>
      (\<exists>mid b. l = a # mid @ [b] \<and> length mid \<le> 61 \<and> (\<forall>c \<in> set mid. is_alnum c \<or> c = hyphen) \<and>
          is_alnum b)))"
proof (cases l)
  case Nil
  then show ?thesis
    unfolding Label_def lang_alnum by (simp add: conc_single_Nil)
next
  case (Cons a t)
  then show ?thesis
    unfolding Label_def lang_alnum lang_label_tail
    by (simp add: conc_single_Cons conc_single_snoc) blast
qed

lemma Label_is_label: "l \<in> Label \<longleftrightarrow> is_label l"
proof
  assume "l \<in> Label"
  then obtain a where a: "is_alnum a"
    and l: "l = [a] \<or> (\<exists>mid b. l = a # mid @ [b] \<and> length mid \<le> 61 \<and>
            (\<forall>c \<in> set mid. is_alnum c \<or> c = hyphen) \<and> is_alnum b)"
    unfolding Label_iff by blast
  from l show "is_label l"
  proof
    assume "l = [a]"
    with a show ?thesis by (simp add: is_label_def alnum_not_hyphen)
  next
    assume "\<exists>mid b. l = a # mid @ [b] \<and> length mid \<le> 61 \<and>
            (\<forall>c \<in> set mid. is_alnum c \<or> c = hyphen) \<and> is_alnum b"
    then obtain mid b where "l = a # mid @ [b]" "length mid \<le> 61"
      "\<forall>c \<in> set mid. is_alnum c \<or> c = hyphen" "is_alnum b" by blast
    with a show ?thesis by (auto simp: is_label_def alnum_not_hyphen list_all_iff)
  qed
next
  assume il: "is_label l"
  then obtain a t where l: "l = a # t" by (cases l) (auto simp: is_label_def)
  with il have a: "is_alnum a" by (auto simp: is_label_def)
  show "l \<in> Label"
  proof (cases t rule: rev_cases)
    case Nil
    with l a show ?thesis unfolding Label_iff by blast
  next
    case (snoc mid b)
    with l il have "l = a # mid @ [b] \<and> length mid \<le> 61 \<and>
       (\<forall>c \<in> set mid. is_alnum c \<or> c = hyphen) \<and> is_alnum b"
      by (auto simp: is_label_def list_all_iff)
    with a show ?thesis unfolding Label_iff by blast
  qed
qed

lemma label_no_dot: "is_label l \<Longrightarrow> dot \<notin> set l"
proof
  assume "is_label l" "dot \<in> set l"
  then have "is_alnum dot \<or> dot = hyphen" by (auto simp: is_label_def list_all_iff)
  with alnum_not_dot[of dot] hyphen_not_dot show False by auto
qed

lemma within_star: "within 0 None = UNIV"
  by (simp add: within_def)

lemma matcher_Bol_later:
  "0 < i \<Longrightarrow> i \<le> length s \<Longrightarrow> matcher (Seq Bol r) s (drop i s) c = None"
proof -
  assume "0 < i" "i \<le> length s"
  then have "length (drop i s) \<noteq> length s" by simp
  then show ?thesis by (simp del: length_drop)
qed

lemma scan_Bol_later:
  "0 < i \<Longrightarrow> scan (Seq Bol r) False s i = None"
proof (induction "Seq Bol r" False s i rule: scan.induct)
  case (1 s i)
  show ?case
  proof (cases "length s < i")
    case True
    then show ?thesis by (simp add: scan.simps)
  next
    case False
    with "1.prems" have m: "matcher (Seq Bol r) s (drop i s) Some = None"
      by (intro matcher_Bol_later) simp_all
    from "1.hyps"[OF False m] have "scan (Seq Bol r) False s (Suc i) = None" by simp
    with False m show ?thesis by (subst scan.simps) simp
  qed
qed

lemma scan_Bol:
  "(scan (Seq Bol r) False s 0 \<noteq> None) = (matcher r s s Some \<noteq> None)"
  by (subst scan.simps) (auto simp: scan_Bol_later split: option.splits)

lemma exec_anchored:
  "fst (RegExpBuiltinExec (regexp_literal (Seq Bol r)) s) = (matcher r s s Some \<noteq> None)"
  using scan_Bol[of r s]
  by (auto simp: RegExpBuiltinExec_def regexp_literal_def split: option.splits)

lemma exec_unchanged:
  "snd (RegExpBuiltinExec (regexp_literal r) s) = regexp_literal r"
  by (auto simp: RegExpBuiltinExec_def regexp_literal_def split: option.splits)


lemma matcher_to_end:
  "plain r \<Longrightarrow> (matcher (Seq r Eol) s x Some \<noteq> None) = (x \<in> lang r)"
proof -
  assume p: "plain r"
  have "(matcher (Seq r Eol) s x Some \<noteq> None) =
        (\<exists>u y. x = u @ y \<and> u \<in> lang r \<and> matcher Eol s y Some \<noteq> None)"
    unfolding matcher.simps(5) by (rule matcher_lang[OF p])
  also have "\<dots> = (x \<in> lang r)" by auto
  finally show ?thesis .
qed

lemma domain_matches:
  "fst (RegExpBuiltinExec (regexp_literal domain_pattern) s) =
   (s \<in> conc Label (\<Union>n. lpow (conc {[dot]} Label) n))"
proof -
  let ?body = "Seq (Seq alnum label_tail) (Star (Seq (Chr CHR ''.'') (Seq alnum label_tail)))"
  have p: "plain ?body" by (simp add: alnum_def label_tail_def alnum_hyphen_def)
  have "fst (RegExpBuiltinExec (regexp_literal domain_pattern) s) =
        (matcher (Seq ?body Eol) s s Some \<noteq> None)"
    unfolding domain_pattern_def by (simp add: exec_anchored)
  also have "\<dots> = (s \<in> lang ?body)" by (rule matcher_to_end[OF p])
  also have "lang ?body = conc Label (\<Union>n. lpow (conc {[dot]} Label) n)"
    by (simp add: Label_def within_star dot_def)
  finally show ?thesis .
qed

lemma domain_grammar:
  "fst (RegExpBuiltinExec (regexp_literal domain_pattern) s) = hostname_grammar s"
proof -
  have "(s \<in> conc Label (\<Union>n. lpow (conc {[dot]} Label) n)) =
        (\<exists>n. s \<in> conc Label (lpow (conc {[dot]} Label) n))"
    by (auto simp: conc_iff)
  also have "\<dots> = (\<exists>ls. ls \<noteq> [] \<and> set ls \<subseteq> Label \<and> s = join_dots ls)"
    unfolding head_then_dotted
  proof
    assume "\<exists>n ls. length ls = Suc n \<and> set ls \<subseteq> Label \<and> s = join_dots ls"
    then obtain n ls where ls: "length ls = Suc n" "set ls \<subseteq> Label" "s = join_dots ls" by blast
    then have "ls \<noteq> [] \<and> set ls \<subseteq> Label \<and> s = join_dots ls" by auto
    then show "\<exists>ls. ls \<noteq> [] \<and> set ls \<subseteq> Label \<and> s = join_dots ls" by blast
  next
    assume "\<exists>ls. ls \<noteq> [] \<and> set ls \<subseteq> Label \<and> s = join_dots ls"
    then obtain ls where ls: "ls \<noteq> []" "set ls \<subseteq> Label" "s = join_dots ls" by blast
    then have "length ls = Suc (length ls - 1)" by (cases ls) auto
    with ls show "\<exists>n ls. length ls = Suc n \<and> set ls \<subseteq> Label \<and> s = join_dots ls" by blast
  qed
  also have "\<dots> = (set (split_dots s) \<subseteq> Label)"
    by (rule grammar_via_join) (simp add: Label_is_label label_no_dot)
  also have "\<dots> = hostname_grammar s"
    by (auto simp: hostname_grammar_def list_all_iff Label_is_label)
  finally show ?thesis by (simp add: domain_matches)
qed

section \<open>The IPv4 pattern\<close>

lemma conc_one_Cons: "(a # t \<in> conc {[c]} X) = (a = c \<and> t \<in> X)"
  by (auto simp: conc_iff)

lemma conc_one_Nil: "[] \<notin> conc {[c]} X"
  by (auto simp: conc_iff)

lemma conc_insert_Nil: "conc (insert [] A) B = B \<union> conc A B"
  by (auto simp: conc_def)

lemma between_Cons: "(a # t \<in> between lo hi) = (lo \<le> unat a \<and> unat a \<le> hi \<and> t = [])"
  by (auto simp: between_def)

lemma between_Nil: "[] \<notin> between lo hi"
  by (auto simp: between_def)

lemma conc_between_Cons:
  "(a # t \<in> conc (between lo hi) X) = (lo \<le> unat a \<and> unat a \<le> hi \<and> t \<in> X)"
  unfolding between_def by (simp add: conc_single_Cons)

lemma conc_between_Nil: "[] \<notin> conc (between lo hi) X"
  unfolding between_def by (simp add: conc_single_Nil)

lemma lang_one_range:
  "lang (Cls [(lo, hi)]) = between (of_char lo) (of_char hi)"
proof -
  have "unat (of_char c :: code_unit) = of_char c" for c
  proof -
    have "(of_char c :: nat) < 256" by simp
    also have "(256 :: nat) < 2 ^ 16" by simp
    finally have "(of_char c :: nat) < 2 ^ 16" .
    then have "unat (of_nat (of_char c) :: code_unit) = of_char c"
      by (simp add: unat_of_nat)
    then show ?thesis by (simp add: of_nat_of_char)
  qed
  then show ?thesis
    by (simp add: between_def in_class_def word_le_nat_alt)
qed

lemma lang_opt_range:
  "lang (Opt (Cls [(lo, hi)])) = insert [] (between (of_char lo) (of_char hi))"
  unfolding lang_opt lang_one_range ..

lemma Octet_eq:
  "Octet =
     conc {[50]} (conc {[53]} (between 48 53)) \<union>
     (conc {[50]} (conc (between 48 52) (between 48 57)) \<union>
      conc (insert [] (between 48 49)) (conc (between 48 57) (insert [] (between 48 57))))"
  unfolding Octet_def octet_def seqs.simps lang.simps(3,5,6) lang_opt_range lang_one_range
  by simp

lemmas octet_simps =
  conc_insert_Nil conc_one_Cons conc_one_Nil between_Cons between_Nil
  conc_between_Cons conc_between_Nil word_unat_eq_iff

lemma Octet_Nil: "[] \<notin> Octet"
  unfolding Octet_eq by (simp add: octet_simps)

lemma Octet_1: "[a] \<in> Octet \<longleftrightarrow> 48 \<le> unat a \<and> unat a \<le> 57"
  unfolding Octet_eq by (simp add: octet_simps)

lemma Octet_2:
  "[a, b] \<in> Octet \<longleftrightarrow> 48 \<le> unat a \<and> unat a \<le> 57 \<and> 48 \<le> unat b \<and> unat b \<le> 57"
proof -
  have "[a, b] \<in> Octet \<longleftrightarrow>
     (48 \<le> unat a \<and> unat a \<le> 57 \<and> 48 \<le> unat b \<and> unat b \<le> 57) \<or>
     (48 \<le> unat a \<and> unat a \<le> 49 \<and> 48 \<le> unat b \<and> unat b \<le> 57)"
    unfolding Octet_eq by (simp add: octet_simps)
  then show ?thesis by arith
qed

lemma Octet_3:
  "[a, b, c] \<in> Octet \<longleftrightarrow>
     unat a = 50 \<and> unat b = 53 \<and> 48 \<le> unat c \<and> unat c \<le> 53 \<or>
     unat a = 50 \<and> 48 \<le> unat b \<and> unat b \<le> 52 \<and> 48 \<le> unat c \<and> unat c \<le> 57 \<or>
     48 \<le> unat a \<and> unat a \<le> 49 \<and> 48 \<le> unat b \<and> unat b \<le> 57 \<and> 48 \<le> unat c \<and> unat c \<le> 57"
  unfolding Octet_eq by (simp add: octet_simps)

lemma Octet_4: "a # b # c # d # t \<notin> Octet"
  unfolding Octet_eq by (simp add: octet_simps)

lemma digit_unat: "is_digit a \<longleftrightarrow> 48 \<le> unat a \<and> unat a \<le> 57"
  by (simp add: is_digit_def word_le_nat_alt)

lemma is_octet_Nil: "\<not> is_octet []"
  by (simp add: is_octet_def)

lemma is_octet_1: "is_octet [a] \<longleftrightarrow> 48 \<le> unat a \<and> unat a \<le> 57"
proof -
  have "is_octet [a] \<longleftrightarrow> 48 \<le> unat a \<and> unat a \<le> 57 \<and> unat a - 48 \<le> 255"
    by (simp add: is_octet_def decimal_def digit_value_def digit_unat)
  then show ?thesis by auto
qed

lemma is_octet_2:
  "is_octet [a, b] \<longleftrightarrow> 48 \<le> unat a \<and> unat a \<le> 57 \<and> 48 \<le> unat b \<and> unat b \<le> 57"
proof -
  have "is_octet [a, b] \<longleftrightarrow> (48 \<le> unat a \<and> unat a \<le> 57) \<and> (48 \<le> unat b \<and> unat b \<le> 57) \<and>
          10 * (unat a - 48) + (unat b - 48) \<le> 255"
    by (simp add: is_octet_def decimal_def digit_value_def digit_unat)
  then show ?thesis by auto
qed

lemma octet_arith:
  fixes i j k :: nat
  assumes "i \<le> 9" "j \<le> 9" "k \<le> 9"
  shows "(10 * (10 * i + j) + k \<le> 255) \<longleftrightarrow> (i = 2 \<and> j = 5 \<and> k \<le> 5 \<or> i = 2 \<and> j \<le> 4 \<or> i \<le> 1)"
proof -
  consider "i \<le> 1" | "i = 2" "j \<le> 4" | "i = 2" "j = 5" | "i = 2" "6 \<le> j" | "3 \<le> i"
    by linarith
  then show ?thesis
  proof cases
    case 1
    with assms show ?thesis by simp
  next
    case 2
    with assms show ?thesis by simp
  next
    case 3
    with assms show ?thesis by simp
  next
    case 4
    with assms show ?thesis by simp
  next
    case 5
    with assms show ?thesis by simp
  qed
qed

lemma digit_split:
  assumes "48 \<le> x" "x \<le> (57::nat)"
  obtains i where "x = 48 + i" "i \<le> 9"
proof -
  from assms have "x = 48 + (x - 48)" "x - 48 \<le> 9" by simp_all
  then show ?thesis by (rule that)
qed

lemma is_octet_3:
  "is_octet [a, b, c] \<longleftrightarrow>
     unat a = 50 \<and> unat b = 53 \<and> 48 \<le> unat c \<and> unat c \<le> 53 \<or>
     unat a = 50 \<and> 48 \<le> unat b \<and> unat b \<le> 52 \<and> 48 \<le> unat c \<and> unat c \<le> 57 \<or>
     48 \<le> unat a \<and> unat a \<le> 49 \<and> 48 \<le> unat b \<and> unat b \<le> 57 \<and> 48 \<le> unat c \<and> unat c \<le> 57"
  (is "?lhs \<longleftrightarrow> ?rhs")
proof (cases "(48 \<le> unat a \<and> unat a \<le> 57) \<and> (48 \<le> unat b \<and> unat b \<le> 57) \<and>
              (48 \<le> unat c \<and> unat c \<le> 57)")
  case False
  then have "\<not> ?lhs" by (auto simp: is_octet_def digit_unat)
  moreover from False have "\<not> ?rhs" by linarith
  ultimately show ?thesis by simp
next
  case True
  then obtain i j k where ijk: "unat a = 48 + i" "i \<le> 9" "unat b = 48 + j" "j \<le> 9"
      "unat c = 48 + k" "k \<le> 9"
    by (metis digit_split)
  then have "?lhs \<longleftrightarrow> 10 * (10 * i + j) + k \<le> 255"
    by (simp add: is_octet_def decimal_def digit_value_def digit_unat)
  also have "\<dots> \<longleftrightarrow> (i = 2 \<and> j = 5 \<and> k \<le> 5 \<or> i = 2 \<and> j \<le> 4 \<or> i \<le> 1)"
    using ijk by (intro octet_arith)
  also have "\<dots> \<longleftrightarrow> ?rhs"
    using ijk by simp
  finally show ?thesis .
qed

lemma is_octet_4: "\<not> is_octet (a # b # c # d # t)"
  by (simp add: is_octet_def)

lemma Octet_is_octet: "l \<in> Octet \<longleftrightarrow> is_octet l"
proof (cases l)
  case Nil
  then show ?thesis by (simp add: Octet_Nil is_octet_Nil)
next
  case l1: (Cons a t)
  show ?thesis
  proof (cases t)
    case Nil
    with l1 show ?thesis by (simp only: Octet_1 is_octet_1)
  next
    case l2: (Cons b t2)
    show ?thesis
    proof (cases t2)
      case Nil
      with l1 l2 show ?thesis by (simp only: Octet_2 is_octet_2)
    next
      case l3: (Cons c t3)
      show ?thesis
      proof (cases t3)
        case Nil
        with l1 l2 l3 show ?thesis by (simp only: Octet_3 is_octet_3)
      next
        case (Cons d t4)
        with l1 l2 l3 show ?thesis by (simp only: Octet_4 is_octet_4)
      qed
    qed
  qed
qed

lemma within_exact: "within n (Some n) = {n}"
  by (auto simp: within_def)

lemma plain_octet: "plain octet"
  by (simp add: octet_def)

lemma ip_matches:
  "fst (RegExpBuiltinExec (regexp_literal ip_pattern) s) =
   (s \<in> conc (lpow (conc Octet {[dot]}) 3) Octet)"
proof -
  let ?body = "Seq (Quant (Seq octet (Chr CHR ''.'')) 3 (Some 3)) octet"
  have p: "plain ?body" by (simp add: plain_octet)
  have "fst (RegExpBuiltinExec (regexp_literal ip_pattern) s) =
        (matcher (Seq ?body Eol) s s Some \<noteq> None)"
    unfolding ip_pattern_def by (simp add: exec_anchored)
  also have "\<dots> = (s \<in> lang ?body)" by (rule matcher_to_end[OF p])
  also have "lang ?body = conc (lpow (conc Octet {[dot]}) 3) Octet"
    unfolding lang.simps(5,7) within_exact by (simp add: Octet_def dot_def)
  finally show ?thesis .
qed

lemma digit_not_dot: "\<not> is_digit dot"
  by (simp add: is_digit_def dot_def)

lemma octet_no_dot: "is_octet l \<Longrightarrow> dot \<notin> set l"
proof
  assume "is_octet l" "dot \<in> set l"
  then have "is_digit dot" by (auto simp: is_octet_def list_all_iff)
  with digit_not_dot show False by simp
qed

lemma ip_grammar:
  "fst (RegExpBuiltinExec (regexp_literal ip_pattern) s) = ipv4_grammar s"
proof -
  have "(s \<in> conc (lpow (conc Octet {[dot]}) 3) Octet) =
        (\<exists>ls. length ls = Suc 3 \<and> set ls \<subseteq> Octet \<and> s = join_dots ls)"
    by (rule dotted_then_last)
  also have "\<dots> = (length (split_dots s) = 4 \<and> set (split_dots s) \<subseteq> Octet)"
  proof
    assume "\<exists>ls. length ls = Suc 3 \<and> set ls \<subseteq> Octet \<and> s = join_dots ls"
    then obtain ls where ls: "length ls = Suc 3" "set ls \<subseteq> Octet" "s = join_dots ls" by blast
    then have "ls \<noteq> []" "\<forall>l \<in> set ls. dot \<notin> set l"
      by (auto simp: Octet_is_octet octet_no_dot)
    then have "split_dots (join_dots ls) = ls" by (rule split_join)
    with ls show "length (split_dots s) = 4 \<and> set (split_dots s) \<subseteq> Octet" by simp
  next
    assume "length (split_dots s) = 4 \<and> set (split_dots s) \<subseteq> Octet"
    then have "length (split_dots s) = Suc 3 \<and> set (split_dots s) \<subseteq> Octet \<and>
               s = join_dots (split_dots s)"
      by (simp add: join_split)
    then show "\<exists>ls. length ls = Suc 3 \<and> set ls \<subseteq> Octet \<and> s = join_dots ls" by blast
  qed
  also have "\<dots> = ipv4_grammar s"
    by (auto simp: ipv4_grammar_def list_all_iff Octet_is_octet)
  finally show ?thesis by (simp add: ip_matches)
qed

lemma hostname_grammar_Nil: "\<not> hostname_grammar []"
  by (simp add: hostname_grammar_def is_label_def)

lemma ipv4_grammar_Nil: "\<not> ipv4_grammar []"
  by (simp add: ipv4_grammar_def)

lemma validate_string:
  "validateTarget (JString s) = Inr (hostname_grammar s \<or> ipv4_grammar s)"
proof (cases "s = []")
  case True
  then show ?thesis
    by (simp add: validateTarget_def hostname_grammar_Nil ipv4_grammar_Nil)
next
  case False
  then show ?thesis
    using domain_grammar[of s] ip_grammar[of s]
    by (simp add: validateTarget_def RegExp_test_def case_prod_beta)
qed

lemma validate_non_string:
  "typeof v \<noteq> ''string'' \<Longrightarrow> validateTarget v = Inr False"
  by (simp add: validateTarget_def)

lemma is_octet_is_label: "is_octet l \<Longrightarrow> is_label l"
proof -
  assume o: "is_octet l"
  have d: "is_digit a \<Longrightarrow> is_alnum a" for a
    by (simp add: is_digit_def is_alnum_def)
  from o have "l \<noteq> []" "length l \<le> 63" "\<forall>a \<in> set l. is_alnum a"
    by (auto simp: is_octet_def list_all_iff d)
  moreover from this have "is_alnum (hd l)" "is_alnum (last l)" by simp_all
  ultimately show ?thesis
    by (auto simp: is_label_def list_all_iff alnum_not_hyphen simp flip: length_greater_0_conv)
qed

lemma ipv4_is_hostname: "ipv4_grammar s \<Longrightarrow> hostname_grammar s"
  by (auto simp: ipv4_grammar_def hostname_grammar_def list_all_iff is_octet_is_label)

lemma set_join_dots: "set (join_dots ls) \<subseteq> insert dot (\<Union>l \<in> set ls. set l)"
  by (induction ls rule: join_dots.induct) auto

lemma hostname_chars:
  assumes "hostname_grammar s" "a \<in> set s"
  shows "is_alnum a \<or> a = dot \<or> a = hyphen"
proof -
  from assms(2) have "a \<in> set (join_dots (split_dots s))" by (simp add: join_split)
  with set_join_dots have "a = dot \<or> (\<exists>l \<in> set (split_dots s). a \<in> set l)" by blast
  with assms(1) show ?thesis
    by (auto simp: hostname_grammar_def is_label_def list_all_iff)
qed

section \<open>Dates\<close>

lemma div_next:
  fixes x k :: int
  assumes "1 < k"
  shows "(x + 1) div k = x div k + (if (x + 1) mod k = 0 then 1 else 0)"
proof -
  have r: "0 \<le> x mod k" "x mod k < k" using assms by simp_all
  have one: "(1::int) div k = 0" "(1::int) mod k = 1" using assms by simp_all
  have d: "(x + 1) div k = x div k + (x mod k + 1) div k"
    using div_add1_eq[of x 1 k] by (simp add: one)
  have m: "(x + 1) mod k = (x mod k + 1) mod k"
    by (simp add: mod_add_left_eq)
  show ?thesis
  proof (cases "x mod k + 1 = k")
    case True
    with assms have "(x mod k + 1) div k = 1" "(x mod k + 1) mod k = 0" by simp_all
    with d m show ?thesis by simp
  next
    case False
    with r have s: "0 \<le> x mod k + 1" "x mod k + 1 < k" by simp_all
    then have "(x mod k + 1) div k = 0" "(x mod k + 1) mod k = x mod k + 1"
      by simp_all
    with d m r show ?thesis by simp
  qed
qed

lemma div_step:
  fixes y k c :: int
  assumes "1 < k" "k dvd c"
  shows "(y - c) div k = (y - (c + 1)) div k + (if y mod k = 0 then 1 else 0)"
proof -
  have "(y - c) mod k = y mod k"
    using assms(2) by (metis mod_diff_right_eq dvd_imp_mod_0 diff_zero mod_mod_trivial)
  with div_next[OF assms(1), of "y - (c + 1)"] show ?thesis
    by (simp add: algebra_simps)
qed

lemma DayFromYear_next: "DayFromYear (y + 1) = DayFromYear y + DaysInYear y"
proof -
  have a: "(y - 1968) div 4 = (y - 1969) div 4 + (if y mod 4 = 0 then 1 else 0)"
    using div_step[of 4 1968 y] by simp
  have b: "(y - 1900) div 100 = (y - 1901) div 100 + (if y mod 100 = 0 then 1 else 0)"
    using div_step[of 100 1900 y] by simp
  have c: "(y - 1600) div 400 = (y - 1601) div 400 + (if y mod 400 = 0 then 1 else 0)"
    using div_step[of 400 1600 y] by simp
  have h1: "y mod 4 = 0" if "y mod 100 = 0"
  proof -
    from that have "100 dvd y" by (simp add: mod_eq_0_iff_dvd)
    moreover have "(4::int) dvd 100" by simp
    ultimately have "4 dvd y" by (rule dvd_trans[rotated])
    then show ?thesis by (simp add: mod_eq_0_iff_dvd)
  qed
  have h2: "y mod 100 = 0" if "y mod 400 = 0"
  proof -
    from that have "400 dvd y" by (simp add: mod_eq_0_iff_dvd)
    moreover have "(100::int) dvd 400" by simp
    ultimately have "100 dvd y" by (rule dvd_trans[rotated])
    then show ?thesis by (simp add: mod_eq_0_iff_dvd)
  qed
  have "DayFromYear (y + 1) =
        365 * (y - 1969) + (y - 1968) div 4 - (y - 1900) div 100 + (y - 1600) div 400"
    by (simp add: DayFromYear_def)
  also have "\<dots> = DayFromYear y + 365 + (if y mod 4 = 0 then 1 else 0)
                - (if y mod 100 = 0 then 1 else 0) + (if y mod 400 = 0 then 1 else 0)"
    unfolding a b c by (simp add: DayFromYear_def)
  also have "\<dots> = DayFromYear y + DaysInYear y"
    using h1 h2 by (auto simp: DaysInYear_def)
  finally show ?thesis .
qed

lemma DaysInYear_range: "DaysInYear y = 365 \<or> DaysInYear y = 366"
  by (simp add: DaysInYear_def)

lemma year_search_spec:
  "DayFromYear y \<le> d \<Longrightarrow> d < DayFromYear y + 365 * (int fuel + 1) \<Longrightarrow>
   DayFromYear (year_search fuel y d) \<le> d \<and> d < DayFromYear (year_search fuel y d + 1) \<and>
   y \<le> year_search fuel y d"
proof (induction fuel arbitrary: y)
  case 0
  have "DayFromYear y + 365 \<le> DayFromYear (y + 1)"
    using DayFromYear_next[of y] DaysInYear_range[of y] by auto
  with 0 show ?case by simp
next
  case (Suc fuel)
  have n: "DayFromYear y + 365 \<le> DayFromYear (y + 1)"
    using DayFromYear_next[of y] DaysInYear_range[of y] by auto
  show ?case
  proof (cases "DayFromYear (y + 1) \<le> d")
    case True
    from Suc.prems(2) n have "d < DayFromYear (y + 1) + 365 * (int fuel + 1)" by simp
    from Suc.IH[OF True this] True show ?thesis by simp
  next
    case False
    with Suc.prems show ?thesis by simp
  qed
qed

lemma div_bounds:
  fixes x c :: int
  assumes "0 < c"
  shows "c * (x div c) \<le> x" "x < c * (x div c) + c"
proof -
  have e: "c * (x div c) + x mod c = x" by simp
  have "0 \<le> x mod c" "x mod c < c" using assms by simp_all
  with e show "c * (x div c) \<le> x" "x < c * (x div c) + c" by linarith+
qed

lemma DayFromYear_1970: "DayFromYear 1970 = 0"
  by (simp add: DayFromYear_def)

lemma DayFromYear_up:
  "365 * int n \<le> DayFromYear (1970 + int n) \<and> DayFromYear (1970 + int n) \<le> 366 * int n"
proof (induction n)
  case 0
  then show ?case by (simp add: DayFromYear_1970)
next
  case (Suc n)
  have "DayFromYear (1970 + int (Suc n)) =
        DayFromYear (1970 + int n) + DaysInYear (1970 + int n)"
    using DayFromYear_next[of "1970 + int n"] by (simp add: algebra_simps)
  with Suc DaysInYear_range[of "1970 + int n"] show ?case by auto
qed

lemma DayFromYear_down:
  "- 366 * int n \<le> DayFromYear (1970 - int n) \<and> DayFromYear (1970 - int n) \<le> - 365 * int n"
proof (induction n)
  case 0
  then show ?case by (simp add: DayFromYear_1970)
next
  case (Suc n)
  have "DayFromYear (1970 - int n) =
        DayFromYear (1970 - int (Suc n)) + DaysInYear (1970 - int (Suc n))"
    using DayFromYear_next[of "1970 - int (Suc n)"] by (simp add: algebra_simps)
  with Suc DaysInYear_range[of "1970 - int (Suc n)"] show ?case by auto
qed

lemma DayFromYear_bounds:
  "(if 0 \<le> k then 365 * k else 366 * k) \<le> DayFromYear (1970 + k) \<and>
   DayFromYear (1970 + k) \<le> (if 0 \<le> k then 366 * k else 365 * k)"
proof (cases "0 \<le> k")
  case True
  then have "k = int (nat k)" by simp
  with DayFromYear_up[of "nat k"] True show ?thesis by simp
next
  case False
  then have "k = - int (nat (- k))" by simp
  with DayFromYear_down[of "nat (- k)"] False show ?thesis by simp
qed

lemma DayFromYear_mono_nat: "DayFromYear y \<le> DayFromYear (y + int n)"
proof (induction n)
  case 0
  then show ?case by simp
next
  case (Suc n)
  have "DayFromYear (y + int (Suc n)) = DayFromYear (y + int n) + DaysInYear (y + int n)"
    using DayFromYear_next[of "y + int n"] by (simp add: algebra_simps)
  with Suc DaysInYear_range[of "y + int n"] show ?case by auto
qed

lemma DayFromYear_mono: "y \<le> z \<Longrightarrow> DayFromYear y \<le> DayFromYear z"
  using DayFromYear_mono_nat[of y "nat (z - y)"] by simp

lemma YearFromTime_spec:
  "DayFromYear (YearFromTime t) \<le> Day t \<and> Day t < DayFromYear (YearFromTime t + 1)"
proof -
  define d where "d = Day t"
  define k where "k = (if 0 \<le> d then d div 366 else d div 365)"
  define below where "below = (if 0 \<le> k then 365 * k else 366 * k)"
  define fuel where "fuel = nat ((d - below) div 365 + 1)"
  have Y: "YearFromTime t = year_search fuel (1970 + k) d"
    by (simp add: YearFromTime_def Let_def d_def k_def below_def fuel_def)
  have b: "below \<le> DayFromYear (1970 + k)"
    and u: "DayFromYear (1970 + k) \<le> (if 0 \<le> k then 366 * k else 365 * k)"
    using DayFromYear_bounds[of k] by (simp_all add: below_def)
  have ud: "(if 0 \<le> k then 366 * k else 365 * k) \<le> d"
  proof (cases "0 \<le> d")
    case True
    then have "0 \<le> k" by (simp add: k_def pos_imp_zdiv_nonneg_iff)
    with True div_bounds(1)[of 366 d] show ?thesis by (simp add: k_def)
  next
    case False
    then have "k < 0" by (simp add: k_def neg_imp_zdiv_neg_iff)
    with False div_bounds(1)[of 365 d] show ?thesis by (simp add: k_def)
  qed
  from u ud have lo: "DayFromYear (1970 + k) \<le> d" by simp
  with b have nn: "0 \<le> d - below" by simp
  then have "0 \<le> (d - below) div 365" by (simp add: pos_imp_zdiv_nonneg_iff)
  then have f: "int fuel = (d - below) div 365 + 1" by (simp add: fuel_def)
  have "d - below < 365 * ((d - below) div 365) + 365"
    using div_bounds(2)[of 365 "d - below"] by simp
  with f b have hi: "d < DayFromYear (1970 + k) + 365 * (int fuel + 1)" by simp
  from year_search_spec[OF lo hi] show ?thesis by (simp add: Y d_def)
qed

lemma YearFromTime_largest:
  "(msPerDay * DayFromYear y \<le> t) = (y \<le> YearFromTime t)"
proof -
  have m: "(msPerDay * x \<le> t) = (x \<le> Day t)" for x
  proof
    assume "msPerDay * x \<le> t"
    then have "(msPerDay * x) div msPerDay \<le> t div msPerDay"
      by (rule zdiv_mono1) (simp add: msPerDay_def)
    then show "x \<le> Day t" by (simp add: Day_def msPerDay_def)
  next
    assume "x \<le> Day t"
    then have "msPerDay * x \<le> msPerDay * (t div msPerDay)"
      by (simp add: Day_def msPerDay_def)
    also have "\<dots> \<le> t" by (rule div_bounds(1)) (simp add: msPerDay_def)
    finally show "msPerDay * x \<le> t" .
  qed
  show ?thesis
  proof
    assume "msPerDay * DayFromYear y \<le> t"
    then have "DayFromYear y \<le> Day t" by (simp add: m)
    with YearFromTime_spec[of t] have "DayFromYear y < DayFromYear (YearFromTime t + 1)" by simp
    then have "\<not> YearFromTime t + 1 \<le> y" using DayFromYear_mono[of "YearFromTime t + 1" y] by auto
    then show "y \<le> YearFromTime t" by simp
  next
    assume "y \<le> YearFromTime t"
    then have "DayFromYear y \<le> DayFromYear (YearFromTime t)" by (rule DayFromYear_mono)
    with YearFromTime_spec[of t] have "DayFromYear y \<le> Day t" by simp
    then show "msPerDay * DayFromYear y \<le> t" by (simp add: m)
  qed
qed




















section \<open>Requests\<close>

lemma validate_total: "\<exists>b. validateTarget v = Inr b"
proof (cases "typeof v = ''string''")
  case True
  then obtain s where "v = JString s" by (cases v) (auto split: if_splits)
  then show ?thesis by (simp add: validate_string)
next
  case False
  then have "validateTarget v = Inr False" by (rule validate_non_string)
  then show ?thesis by blast
qed




lemma ping_valid:
  assumes "body req = Some b" "b ''target'' = Some (JString s)"
      and "validateTarget (JString s) = Inr True"
  shows "post_api_ping w req =
     (case runCommand w ((if platform w = js ''win32'' then js ''ping -n 4 '' else js ''ping -c 4 '') @ s) None of
        (Resolved result, calls) \<Rightarrow> (Responded 200 result, calls)
      | (Rejected error, calls) \<Rightarrow> (Responded 500 error, calls)
      | (Pending, calls) \<Rightarrow> (NoResponse, calls))"
  using assms by (simp add: post_api_ping_def template_def)

lemma traceroute_valid:
  assumes "body req = Some b" "b ''target'' = Some (JString s)"
      and "validateTarget (JString s) = Inr True"
  shows "post_api_traceroute w req =
     (case runCommand w ((if platform w = js ''win32'' then js ''tracert '' else js ''traceroute '') @ s) (Some 60000) of
        (Resolved result, calls) \<Rightarrow> (Responded 200 result, calls)
      | (Rejected error, calls) \<Rightarrow> (Responded 500 error, calls)
      | (Pending, calls) \<Rightarrow> (NoResponse, calls))"
  using assms by (simp add: post_api_traceroute_def template_def)

lemma runCommand_log:
  "snd (runCommand w command targ) = [(command, case targ of None \<Rightarrow> 30000 | Some t \<Rightarrow> t)]"
  by (simp add: runCommand_def Let_def)

lemma handler_log:
  "snd (case p of
          (Resolved result, calls) \<Rightarrow> (Responded 200 result, calls)
        | (Rejected error, calls) \<Rightarrow> (Responded 500 error, calls)
        | (Pending, calls) \<Rightarrow> (NoResponse, calls)) = snd p"
  by (cases p; cases "fst p") auto


lemma test_string:
  "RegExp_test R (JString s) = Inr (RegExpBuiltinExec R s)"
  by (simp add: RegExp_test_def)



lemma ping_invalid:
  assumes "body req = Some b"
      and "validateTarget (case b ''target'' of None \<Rightarrow> JUndefined | Some v \<Rightarrow> v) \<noteq> Inr True"
  shows "post_api_ping w req = (Responded 400 invalid_target, [])"
proof -
  from assms(2) validate_total[of "case b ''target'' of None \<Rightarrow> JUndefined | Some v \<Rightarrow> v"]
  have "validateTarget (case b ''target'' of None \<Rightarrow> JUndefined | Some v \<Rightarrow> v) = Inr False"
    by auto
  with assms(1) show ?thesis by (simp add: post_api_ping_def)
qed

lemma traceroute_invalid:
  assumes "body req = Some b"
      and "validateTarget (case b ''target'' of None \<Rightarrow> JUndefined | Some v \<Rightarrow> v) \<noteq> Inr True"
  shows "post_api_traceroute w req = (Responded 400 invalid_target, [])"
proof -
  from assms(2) validate_total[of "case b ''target'' of None \<Rightarrow> JUndefined | Some v \<Rightarrow> v"]
  have "validateTarget (case b ''target'' of None \<Rightarrow> JUndefined | Some v \<Rightarrow> v) = Inr False"
    by auto
  with assms(1) show ?thesis by (simp add: post_api_traceroute_def)
qed



lemma exec_killed:
  assumes "ch = Runs d status out err" "0 < timeout"
      and "d = None \<or> (\<exists>t. d = Some t \<and> timeout < t)"
  shows "exec ch command timeout = Some (Some (js ''Command failed: '' @ command @ [0x0A] @ err), out, err)"
  using assms by (auto simp: exec_def)

lemma runCommand_killed:
  assumes "spawn w command = Runs d status out err"
      and "0 < (case targ of None \<Rightarrow> 30000 | Some t \<Rightarrow> t)"
      and "d = None \<or> (\<exists>t. d = Some t \<and> (case targ of None \<Rightarrow> 30000 | Some t \<Rightarrow> t) < t)"
  shows "runCommand w command targ =
     (Rejected (failure_envelope w (js ''Command failed: '' @ command @ [0x0A] @ err)),
      [(command, case targ of None \<Rightarrow> 30000 | Some t \<Rightarrow> t)])"
  using exec_killed[OF assms, of command]
  by (simp add: runCommand_def failure_envelope_def)

lemma ping_log:
  assumes "body req = Some b" "b ''target'' = Some (JString s)"
      and "validateTarget (JString s) = Inr True"
  shows "snd (post_api_ping w req) =
         [((if platform w = js ''win32'' then js ''ping -n 4 '' else js ''ping -c 4 '') @ s, 30000)]"
  unfolding ping_valid[OF assms] handler_log runCommand_log by simp

lemma traceroute_log:
  assumes "body req = Some b" "b ''target'' = Some (JString s)"
      and "validateTarget (JString s) = Inr True"
  shows "snd (post_api_traceroute w req) =
         [((if platform w = js ''win32'' then js ''tracert '' else js ''traceroute '') @ s, 60000)]"
  unfolding traceroute_valid[OF assms] handler_log runCommand_log by simp

lemma ping_killed:
  assumes "body req = Some b" "b ''target'' = Some (JString s)"
      and "validateTarget (JString s) = Inr True"
      and "command = (if platform w = js ''win32'' then js ''ping -n 4 '' else js ''ping -c 4 '') @ s"
      and "spawn w command = Runs d status out err"
      and "d = None \<or> (\<exists>t. d = Some t \<and> 30000 < t)"
  shows "fst (post_api_ping w req) =
         Responded 500 (failure_envelope w (js ''Command failed: '' @ command @ [0x0A] @ err))"
proof -
  have "runCommand w command None =
     (Rejected (failure_envelope w (js ''Command failed: '' @ command @ [0x0A] @ err)),
      [(command, 30000)])"
    using runCommand_killed[OF assms(5), of None] assms(6) by simp
  then show ?thesis
    unfolding ping_valid[OF assms(1-3)] assms(4)[symmetric] by simp
qed

lemma traceroute_killed:
  assumes "body req = Some b" "b ''target'' = Some (JString s)"
      and "validateTarget (JString s) = Inr True"
      and "command = (if platform w = js ''win32'' then js ''tracert '' else js ''traceroute '') @ s"
      and "spawn w command = Runs d status out err"
      and "d = None \<or> (\<exists>t. d = Some t \<and> 60000 < t)"
  shows "fst (post_api_traceroute w req) =
         Responded 500 (failure_envelope w (js ''Command failed: '' @ command @ [0x0A] @ err))"
proof -
  have "runCommand w command (Some 60000) =
     (Rejected (failure_envelope w (js ''Command failed: '' @ command @ [0x0A] @ err)),
      [(command, 60000)])"
    using runCommand_killed[OF assms(5), of "Some 60000"] assms(6) by simp
  then show ?thesis
    unfolding traceroute_valid[OF assms(1-3)] assms(4)[symmetric] by simp
qed

lemma sample_times:
  "toISOString 1704067230000 = js ''2024-01-01T00:00:30.000Z''"
  "toISOString 1704067200020 = js ''2024-01-01T00:00:00.020Z''"
  by code_simp+

lemma linux_not_win32: "js ''linux'' \<noteq> js ''win32''"
  by (simp add: js_def)

lemma validate_example: "validateTarget (JString (js ''example.com'')) = Inr True"
  by code_simp

lemma example_body:
  "body (target_request v) = Some [''target'' \<mapsto> v]" "[''target'' \<mapsto> v] ''target'' = Some v"
  by (simp_all add: target_request_def)

lemma validate_True_string:
  assumes "validateTarget v = Inr True"
  obtains s where "v = JString s"
proof -
  from assms have "typeof v = ''string''"
    by (auto simp: validateTarget_def split: if_splits)
  then obtain s where "v = JString s" by (cases v) (auto split: if_splits)
  then show ?thesis by (rule that)
qed

lemma logged_command:
  assumes "body req = Some b"
      and "entry \<in> set (snd (post_api_ping w req)) \<union> set (snd (post_api_traceroute w req))"
  shows "\<exists>prefix s. fst entry = js prefix @ s \<and>
           prefix \<in> {''ping -n 4 '', ''ping -c 4 '', ''tracert '', ''traceroute ''} \<and>
           validateTarget (JString s) = Inr True"
proof -
  let ?t = "case b ''target'' of None \<Rightarrow> JUndefined | Some v \<Rightarrow> v"
  show ?thesis
  proof (cases "validateTarget ?t = Inr True")
    case False
    from ping_invalid[OF assms(1) False] traceroute_invalid[OF assms(1) False] assms(2)
    show ?thesis by simp
  next
    case True
    then obtain s where s: "?t = JString s" by (rule validate_True_string)
    then have bt: "b ''target'' = Some (JString s)" by (cases "b ''target''") simp_all
    from True s have v: "validateTarget (JString s) = Inr True" by simp
    from assms(2) ping_log[OF assms(1) bt v, of w] traceroute_log[OF assms(1) bt v, of w]
    have "fst entry = js ''ping -n 4 '' @ s \<or> fst entry = js ''ping -c 4 '' @ s \<or>
          fst entry = js ''tracert '' @ s \<or> fst entry = js ''traceroute '' @ s"
      by (auto split: if_splits)
    with v show ?thesis by blast
  qed
qed

section \<open>Properties of the specification\<close>




text \<open>
  C2: if validateTarget(S) is true for a string S, every character of S is a letter
  a-z or A-Z, a digit, a dot or a hyphen; and every command line given to exec is one of
  the four fixed prefixes followed by a target made of such characters only.
\<close>

theorem validated_characters_safe:
  "(validateTarget (JString s) = Inr True \<longrightarrow> list_all safe_char s) \<and>
   (body req = Some b \<and>
    (command, timeout) \<in> set (snd (post_api_ping w req)) \<union> set (snd (post_api_traceroute w req)) \<longrightarrow>
      (\<exists>prefix target. command = js prefix @ target \<and>
         prefix \<in> {''ping -n 4 '', ''ping -c 4 '', ''tracert '', ''traceroute ''} \<and>
         list_all safe_char target))"
proof (intro conjI impI)
  assume "validateTarget (JString s) = Inr True"
  then have "hostname_grammar s \<or> ipv4_grammar s" by (simp add: validate_string)
  then have "hostname_grammar s" using ipv4_is_hostname by blast
  then show "list_all safe_char s"
    using hostname_chars[of s] by (auto simp: list_all_iff safe_char_def)
next
  assume a: "body req = Some b \<and>
    (command, timeout) \<in> set (snd (post_api_ping w req)) \<union> set (snd (post_api_traceroute w req))"
  then obtain prefix target where p: "command = js prefix @ target"
      "prefix \<in> {''ping -n 4 '', ''ping -c 4 '', ''tracert '', ''traceroute ''}"
      "validateTarget (JString target) = Inr True"
    using logged_command[of req b "(command, timeout)" w] by auto
  from p(3) have "hostname_grammar target \<or> ipv4_grammar target" by (simp add: validate_string)
  then have "hostname_grammar target" using ipv4_is_hostname by blast
  then have "list_all safe_char target"
    using hostname_chars[of target] by (auto simp: list_all_iff safe_char_def)
  with p show "\<exists>prefix target. command = js prefix @ target \<and>
         prefix \<in> {''ping -n 4 '', ''ping -c 4 '', ''tracert '', ''traceroute ''} \<and>
         list_all safe_char target" by blast
qed

theorem validated_characters_safe_witness:
  "validateTarget (JString (js ''a-b.c0'')) = Inr True \<and> list_all safe_char (js ''a-b.c0'') \<and>
   (js ''ping -c 4 a-b.c0'', 30000) \<in>
      set (snd (post_api_ping world_at_start (target_request (JString (js ''a-b.c0''))))) \<and>
   (\<exists>prefix target. js ''ping -c 4 a-b.c0'' = js prefix @ target \<and>
      prefix \<in> {''ping -n 4 '', ''ping -c 4 '', ''tracert '', ''traceroute ''} \<and>
      list_all safe_char target)"
proof -
  have h: "validateTarget (JString (js ''a-b.c0'')) = Inr True" by code_simp
  have l: "snd (post_api_ping world_at_start (target_request (JString (js ''a-b.c0'')))) =
           [(js ''ping -c 4 a-b.c0'', 30000)]"
    using ping_log[OF example_body h, of world_at_start]
    by (simp add: world_at_start_def linux_not_win32) (simp add: js_def)
  note T = validated_characters_safe[of "js ''a-b.c0''"
      "target_request (JString (js ''a-b.c0''))" "[''target'' \<mapsto> JString (js ''a-b.c0'')]"
      "js ''ping -c 4 a-b.c0''" 30000 world_at_start]
  from T h l show ?thesis by (simp add: example_body)
qed

text \<open>
  C3: when the target of a request to POST /api/ping or POST /api/traceroute fails
  validateTarget, the handler answers 400 with the body
  {success: false, error: "Invalid target. Please provide a valid domain or IP address."}
  and exec is not called.
\<close>

theorem invalid_target_never_runs:
  assumes "body req = Some b"
      and "validateTarget (case b ''target'' of None \<Rightarrow> JUndefined | Some v \<Rightarrow> v) \<noteq> Inr True"
  shows "post_api_ping w req =
           (Responded 400
              [(''success'', JBoolean False),
               (''error'', JString (js ''Invalid target. Please provide a valid domain or IP address.''))],
            []) \<and>
         post_api_traceroute w req =
           (Responded 400
              [(''success'', JBoolean False),
               (''error'', JString (js ''Invalid target. Please provide a valid domain or IP address.''))],
            [])"
  using ping_invalid[OF assms] traceroute_invalid[OF assms] by (simp add: invalid_target_def)

theorem invalid_target_never_runs_witness:
  "validateTarget (JString (js ''a.com; rm -rf /'')) \<noteq> Inr True \<and>
   post_api_ping world_at_start (target_request (JString (js ''a.com; rm -rf /''))) =
     (Responded 400
        [(''success'', JBoolean False),
         (''error'', JString (js ''Invalid target. Please provide a valid domain or IP address.''))],
      []) \<and>
   post_api_traceroute world_at_start (target_request (JString (js ''a.com; rm -rf /''))) =
     (Responded 400
        [(''success'', JBoolean False),
         (''error'', JString (js ''Invalid target. Please provide a valid domain or IP address.''))],
      [])"
proof -
  have v: "validateTarget (JString (js ''a.com; rm -rf /'')) \<noteq> Inr True" by code_simp
  have b: "body (target_request (JString (js ''a.com; rm -rf /''))) =
           Some [''target'' \<mapsto> JString (js ''a.com; rm -rf /'')]"
    by (simp add: target_request_def)
  have "validateTarget (case [''target'' \<mapsto> JString (js ''a.com; rm -rf /'')] ''target'' of
                          None \<Rightarrow> JUndefined | Some v \<Rightarrow> v) \<noteq> Inr True"
    using v by simp
  from invalid_target_never_runs[OF b this, of world_at_start] v show ?thesis by simp
qed





text \<open>
  C6 (as stated) says that the failure envelope of a request whose process is killed at
  the deadline refers to the timeout. The envelope carries only the message of the error
  exec reports, which for a killed child is "Command failed: " followed by the command
  line and what the child wrote to standard error.
\<close>

theorem timeout_envelope_counterexample:
  "fst (post_api_ping world_at_start (target_request (JString (js ''example.com'')))) =
     Responded 500
       [(''success'', JBoolean False),
        (''error'', JString (js ''Command failed: ping -c 4 example.com'' @ [0x0A])),
        (''timestamp'', JString (js ''2024-01-01T00:00:30.000Z''))] \<and>
   \<not> references_timeout (js ''Command failed: ping -c 4 example.com'' @ [0x0A])"
proof -
  have c: "(if platform world_at_start = js ''win32'' then js ''ping -n 4 '' else js ''ping -c 4 '')
             @ js ''example.com'' = js ''ping -c 4 example.com''"
    by (simp add: world_at_start_def linux_not_win32) (simp add: js_def)
  have k: "fst (post_api_ping world_at_start (target_request (JString (js ''example.com'')))) =
     Responded 500 (failure_envelope world_at_start
        (js ''Command failed: '' @ js ''ping -c 4 example.com'' @ [0x0A] @ []))"
    by (rule ping_killed[OF example_body validate_example c[symmetric], of None 0 "[]"])
       (simp_all add: world_at_start_def never_exits_def)
  have m: "js ''Command failed: '' @ js ''ping -c 4 example.com'' @ [0x0A] @ [] =
           js ''Command failed: ping -c 4 example.com'' @ [0x0A]"
    by (simp add: js_def)
  have r: "\<not> references_timeout (js ''Command failed: ping -c 4 example.com'' @ [0x0A])"
    by code_simp
  from k r show ?thesis
    unfolding m by (simp add: failure_envelope_def world_at_start_def sample_times)
qed

text \<open>
  C6 (amended): every Ping execution passes exec a timeout of 30000 ms and every Traceroute
  execution one of 60000 ms; a child that has not exited by then is killed, and the request
  is answered 500 with the failure envelope whose error is the message exec reports,
  "Command failed: ", the command line, a line feed and the child's standard error, rather
  than ending in an uncaught exception.
\<close>

theorem deadline_kill_is_reported:
  assumes "body req = Some b" "b ''target'' = Some (JString s)"
      and "validateTarget (JString s) = Inr True"
      and "ping = (if platform w = js ''win32'' then js ''ping -n 4 '' else js ''ping -c 4 '') @ s"
      and "trace = (if platform w = js ''win32'' then js ''tracert '' else js ''traceroute '') @ s"
  shows "snd (post_api_ping w req) = [(ping, 30000)] \<and>
         snd (post_api_traceroute w req) = [(trace, 60000)] \<and>
         (spawn w ping = Runs d status out err \<and> (d = None \<or> (\<exists>t. d = Some t \<and> 30000 < t)) \<longrightarrow>
            fst (post_api_ping w req) =
              Responded 500
                [(''success'', JBoolean False),
                 (''error'', JString (js ''Command failed: '' @ ping @ [0x0A] @ err)),
                 (''timestamp'', JString (toISOString (now w)))]) \<and>
         (spawn w trace = Runs d status out err \<and> (d = None \<or> (\<exists>t. d = Some t \<and> 60000 < t)) \<longrightarrow>
            fst (post_api_traceroute w req) =
              Responded 500
                [(''success'', JBoolean False),
                 (''error'', JString (js ''Command failed: '' @ trace @ [0x0A] @ err)),
                 (''timestamp'', JString (toISOString (now w)))])"
proof (intro conjI impI)
  show "snd (post_api_ping w req) = [(ping, 30000)]"
    unfolding assms(4) by (rule ping_log[OF assms(1-3)])
next
  show "snd (post_api_traceroute w req) = [(trace, 60000)]"
    unfolding assms(5) by (rule traceroute_log[OF assms(1-3)])
next
  assume "spawn w ping = Runs d status out err \<and> (d = None \<or> (\<exists>t. d = Some t \<and> 30000 < t))"
  then show "fst (post_api_ping w req) =
              Responded 500
                [(''success'', JBoolean False),
                 (''error'', JString (js ''Command failed: '' @ ping @ [0x0A] @ err)),
                 (''timestamp'', JString (toISOString (now w)))]"
    using ping_killed[OF assms(1-4), of d status out err] by (simp add: failure_envelope_def)
next
  assume "spawn w trace = Runs d status out err \<and> (d = None \<or> (\<exists>t. d = Some t \<and> 60000 < t))"
  then show "fst (post_api_traceroute w req) =
              Responded 500
                [(''success'', JBoolean False),
                 (''error'', JString (js ''Command failed: '' @ trace @ [0x0A] @ err)),
                 (''timestamp'', JString (toISOString (now w)))]"
    using traceroute_killed[OF assms(1-3) assms(5), of d status out err]
    by (simp add: failure_envelope_def)
qed

theorem deadline_kill_is_reported_witness:
  "validateTarget (JString (js ''example.com'')) = Inr True \<and>
   spawn world_at_start (js ''traceroute example.com'') = Runs None 0 [] [] \<and>
   snd (post_api_ping world_at_start (target_request (JString (js ''example.com'')))) =
     [(js ''ping -c 4 example.com'', 30000)] \<and>
   post_api_traceroute world_at_start (target_request (JString (js ''example.com''))) =
     (Responded 500
        [(''success'', JBoolean False),
         (''error'', JString (js ''Command failed: traceroute example.com'' @ [0x0A])),
         (''timestamp'', JString (js ''2024-01-01T00:00:30.000Z''))],
      [(js ''traceroute example.com'', 60000)])"
proof -
  have c: "js ''ping -c 4 example.com'' =
           (if platform world_at_start = js ''win32'' then js ''ping -n 4 '' else js ''ping -c 4 '')
             @ js ''example.com''"
          "js ''traceroute example.com'' =
           (if platform world_at_start = js ''win32'' then js ''tracert '' else js ''traceroute '')
             @ js ''example.com''"
    by (simp_all add: world_at_start_def linux_not_win32) (simp_all add: js_def)
  have s: "spawn world_at_start x = Runs None 0 [] []" for x
    by (simp add: world_at_start_def never_exits_def)
  have m: "js ''Command failed: '' @ js ''traceroute example.com'' @ [0x0A] @ [] =
           js ''Command failed: traceroute example.com'' @ [0x0A]"
    by (simp add: js_def)
  have n: "toISOString (now world_at_start) = js ''2024-01-01T00:00:30.000Z''"
    by (simp add: world_at_start_def sample_times)
  note T = deadline_kill_is_reported[OF example_body validate_example c,
      of None 0 "[]" "[]"]
  from T s validate_example show ?thesis
    unfolding m n by (simp add: prod_eq_iff)
qed

text \<open>
  C7 (as stated) says that the platform branch is resolved once at process start. Each
  handler reads process.platform when it is called: a process that started while
  process.platform was "linux" and serves a request while it reads "win32" runs the Windows
  command.
\<close>

theorem platform_per_call_counterexample:
  "platform world_at_start = js ''linux'' \<and>
   js ''linux'' \<noteq> js ''win32'' \<and>
   platform world_at_call = js ''win32'' \<and>
   snd (post_api_ping world_at_call (target_request (JString (js ''example.com'')))) =
     [(js ''ping -n 4 example.com'', 30000)] \<and>
   js ''ping -n 4 example.com'' \<noteq> js ''ping -c 4 example.com''"
proof -
  have "snd (post_api_ping world_at_call (target_request (JString (js ''example.com'')))) =
        [((if platform world_at_call = js ''win32'' then js ''ping -n 4 '' else js ''ping -c 4 '')
            @ js ''example.com'', 30000)]"
    by (rule ping_log[OF example_body validate_example])
  then show ?thesis
    by (simp add: world_at_call_def world_at_start_def) (simp add: js_def)
qed

text \<open>
  C7 (amended): for every validated target t, the command line given to exec is exactly
  "ping -c 4 " followed by t, or "ping -n 4 " followed by t when process.platform is
  "win32", for Ping, and "traceroute " or "tracert " followed by t for Traceroute, the
  platform being read from process.platform on every call.
\<close>

theorem command_lines:
  assumes "body req = Some b" "b ''target'' = Some (JString t)"
      and "validateTarget (JString t) = Inr True"
  shows "snd (post_api_ping w req) =
           [(if platform w = js ''win32'' then js ''ping -n 4 '' @ t else js ''ping -c 4 '' @ t,
             30000)] \<and>
         snd (post_api_traceroute w req) =
           [(if platform w = js ''win32'' then js ''tracert '' @ t else js ''traceroute '' @ t,
             60000)]"
  using ping_log[OF assms, of w] traceroute_log[OF assms, of w] by simp

theorem command_lines_witness:
  "validateTarget (JString (js ''example.com'')) = Inr True \<and>
   snd (post_api_ping world_at_start (target_request (JString (js ''example.com'')))) =
     [(js ''ping -c 4 example.com'', 30000)] \<and>
   snd (post_api_traceroute world_at_call (target_request (JString (js ''example.com'')))) =
     [(js ''tracert example.com'', 60000)]"
proof -
  note A = command_lines[OF example_body validate_example, of world_at_start]
  note B = command_lines[OF example_body validate_example, of world_at_call]
  from A B validate_example show ?thesis
    by (simp add: world_at_call_def world_at_start_def linux_not_win32) (simp add: js_def)
qed

text \<open>
  C8: validateTarget(undefined), validateTarget(123) and validateTarget("") are false, and
  validateTarget returns a boolean, without throwing, for a value of any type.
\<close>

theorem validateTarget_never_throws:
  "validateTarget JUndefined = Inr False \<and>
   validateTarget (JNumber False (js ''123'')) = Inr False \<and>
   validateTarget (JString []) = Inr False \<and>
   (\<forall>v. \<exists>b. validateTarget v = Inr b)"
  using validate_total by (simp add: validateTarget_def)

theorem validateTarget_never_throws_witness:
  "ToString (JObject False (Inl Thrown)) = Inl Thrown \<and> ToString JSymbol = Inl TypeError \<and>
   (\<exists>b. validateTarget (JObject False (Inl Thrown)) = Inr b) \<and>
   (\<exists>b. validateTarget JSymbol = Inr b)"
  using validateTarget_never_throws by simp



text \<open>
  C10: the IPv4 test is redundant. Whenever ipRegex.test(S) is true, domainRegex.test(S) is
  true as well, and for every string S validateTarget(S) is the result of
  domainRegex.test(S).
\<close>

theorem ipv4_branch_redundant:
  "(RegExp_test (regexp_literal ip_pattern) (JString s) = Inr (True, R) \<longrightarrow>
      RegExp_test (regexp_literal domain_pattern) (JString s) =
        Inr (True, regexp_literal domain_pattern)) \<and>
   (RegExp_test (regexp_literal domain_pattern) (JString s) = Inr (matched, R') \<longrightarrow>
      validateTarget (JString s) = Inr matched)"
proof (intro conjI impI)
  assume "RegExp_test (regexp_literal ip_pattern) (JString s) = Inr (True, R)"
  then have "fst (RegExpBuiltinExec (regexp_literal ip_pattern) s)"
    by (simp add: test_string)
  then have "hostname_grammar s" by (simp add: ip_grammar ipv4_is_hostname)
  then have "fst (RegExpBuiltinExec (regexp_literal domain_pattern) s)"
    by (simp add: domain_grammar)
  then show "RegExp_test (regexp_literal domain_pattern) (JString s) =
        Inr (True, regexp_literal domain_pattern)"
    using exec_unchanged[of domain_pattern s] by (simp add: test_string prod_eq_iff)
next
  assume "RegExp_test (regexp_literal domain_pattern) (JString s) = Inr (matched, R')"
  then have "matched = fst (RegExpBuiltinExec (regexp_literal domain_pattern) s)"
    by (simp add: test_string prod_eq_iff)
  then have "matched = hostname_grammar s" by (simp add: domain_grammar)
  then show "validateTarget (JString s) = Inr matched"
    using ipv4_is_hostname[of s] by (auto simp: validate_string)
qed

theorem ipv4_branch_redundant_witness:
  "RegExp_test (regexp_literal ip_pattern) (JString (js ''10.0.0.1'')) =
     Inr (True, regexp_literal ip_pattern) \<and>
   RegExp_test (regexp_literal domain_pattern) (JString (js ''10.0.0.1'')) =
     Inr (True, regexp_literal domain_pattern) \<and>
   validateTarget (JString (js ''10.0.0.1'')) = Inr True"
proof -
  have i: "RegExp_test (regexp_literal ip_pattern) (JString (js ''10.0.0.1'')) =
           Inr (True, regexp_literal ip_pattern)"
    by code_simp
  note T = ipv4_branch_redundant[of "js ''10.0.0.1''" "regexp_literal ip_pattern" True
      "regexp_literal domain_pattern"]
  from T i show ?thesis by simp
qed

end
